theory Spec2Isabelle
  imports Main "HOL-Library.Word"
begin

section \<open>Data model of the identity miner (cmd/cql/internal/idminer.go)\<close>

text \<open>
  \<open>mine.Uint256\<close> as the composite literals of idminer.go build it: four \<open>uint64\<close>
  fields \<open>A\<close>, \<open>B\<close>, \<open>C\<close>, \<open>D\<close>; a field left out of a literal holds zero. The
  type is declared in package pow/cpuminer, not in idminer.go, and idminer.go never reads a
  \<open>Uint256\<close> as one number: the statements below speak about limbs.
\<close>

record Uint256 =
  A :: "64 word"
  B :: "64 word"
  C :: "64 word"
  D :: "64 word"

definition Uint256_zero :: Uint256 where
  "Uint256_zero = \<lparr>A = 0, B = 0, C = 0, D = 0\<rparr>"

text \<open>
  \<open>mine.NonceInfo\<close>: the three fields idminer.go reads and writes. \<open>Difficulty\<close> is a Go
  \<open>int\<close>; it is only compared, never computed with, so it is an \<open>int\<close> here. The hash
  type is a parameter \<open>'h\<close>; its Go zero value is \<open>0\<close>.
\<close>

record 'h NonceInfo =
  Nonce :: Uint256
  Difficulty :: int
  Hash :: 'h

definition NonceInfo_zero :: "('h::zero) NonceInfo" where
  "NonceInfo_zero = \<lparr>Nonce = Uint256_zero, Difficulty = 0, Hash = 0\<rparr>"

text \<open>
  The index the one-shot partition uses for the limbs: \<open>position == 0\<close> writes \<open>A\<close>,
  \<open>1\<close> writes \<open>B\<close>, \<open>2\<close> writes \<open>C\<close>, \<open>3\<close> writes \<open>D\<close> (idminer.go, lines 149-157).
\<close>

definition limb :: "nat \<Rightarrow> Uint256 \<Rightarrow> 64 word" where
  "limb position u =
     (if position = 0 then A u
      else if position = 1 then B u
      else if position = 2 then C u
      else if position = 3 then D u
      else 0)"

section \<open>Work partitioner\<close>

subsection \<open>Continuous mode (nonceLoop, lines 85-100)\<close>

definition MaxUint64 :: "64 word" where
  "MaxUint64 = 18446744073709551615"

text \<open>
  \<open>step := math.MaxUint64 / uint64(cpuCount)\<close>. The worker count \<open>cpuCount\<close> is the
  positive Go \<open>int\<close> that \<open>runtime.NumCPU()\<close> returns, a \<open>nat\<close> here; the conversion to
  \<open>uint64\<close> is \<open>of_nat\<close>. An integer division by zero panics in Go: \<open>None\<close>.
\<close>

definition nonceLoop_step :: "nat \<Rightarrow> 64 word option" where
  "nonceLoop_step cpuCount =
     (if (of_nat cpuCount :: 64 word) = 0 then None
      else Some (MaxUint64 div of_nat cpuCount))"

text \<open>
  \<open>start := mine.Uint256{D: step*uint64(i) + uint64(rand.Uint32())}\<close>: the arithmetic is
  on \<open>uint64\<close> and wraps; \<open>r\<close> is the value \<open>rand.Uint32()\<close> returned to this worker.
\<close>

definition nonceLoop_start :: "64 word \<Rightarrow> nat \<Rightarrow> 32 word \<Rightarrow> Uint256" where
  "nonceLoop_start step i r = \<lparr>A = 0, B = 0, C = 0, D = step * of_nat i + ucast r\<rparr>"

text \<open>The starts of all workers \<open>0 \<le> i < cpuCount\<close>; \<open>rnd i\<close> is the draw of worker \<open>i\<close>.\<close>

definition nonceLoop_starts :: "nat \<Rightarrow> (nat \<Rightarrow> 32 word) \<Rightarrow> Uint256 list option" where
  "nonceLoop_starts cpuCount rnd =
     (case nonceLoop_step cpuCount of
        None \<Rightarrow> None
      | Some step \<Rightarrow> Some (map (\<lambda>i. nonceLoop_start step i (rnd i)) [0..<cpuCount]))"

subsection \<open>One-shot mode (nonceGen, lines 139-157)\<close>

text \<open>\<open>step := 256 / cpuCount\<close> on Go \<open>int\<close>; the division panics for \<open>cpuCount = 0\<close>.\<close>

definition nonceGen_step :: "nat \<Rightarrow> nat option" where
  "nonceGen_step cpuCount = (if cpuCount = 0 then None else Some (256 div cpuCount))"

text \<open>
  The start of worker \<open>i\<close>. \<open>uint64(1<<shift)\<close> shifts a \<open>uint64\<close> one; a position
  outside \<open>0..3\<close> leaves \<open>start\<close> at its zero value.
\<close>

definition nonceGen_start :: "nat \<Rightarrow> nat \<Rightarrow> 32 word \<Rightarrow> Uint256" where
  "nonceGen_start step i r =
     (let startBit = i * step;
          position = startBit div 64;
          shift = startBit mod 64
      in if position = 0 then \<lparr>A = push_bit shift 1 + ucast r, B = 0, C = 0, D = 0\<rparr>
         else if position = 1 then \<lparr>A = 0, B = push_bit shift 1 + ucast r, C = 0, D = 0\<rparr>
         else if position = 2 then \<lparr>A = 0, B = 0, C = push_bit shift 1 + ucast r, D = 0\<rparr>
         else if position = 3 then \<lparr>A = 0, B = 0, C = 0, D = push_bit shift 1 + ucast r\<rparr>
         else Uint256_zero)"

definition nonceGen_starts :: "nat \<Rightarrow> (nat \<Rightarrow> 32 word) \<Rightarrow> Uint256 list option" where
  "nonceGen_starts cpuCount rnd =
     (case nonceGen_step cpuCount of
        None \<Rightarrow> None
      | Some step \<Rightarrow> Some (map (\<lambda>i. nonceGen_start step i (rnd i)) [0..<cpuCount]))"

section \<open>Continuous mode: winner selection and report (nonceLoop, lines 112-125)\<close>

text \<open>
  The loop over the workers in index order; \<open>rs\<close> is the list of the values read from
  \<open>nonceChs[0]\<close>, \<open>nonceChs[1]\<close>, ... and \<open>mx\<close> the variable \<open>max\<close>.
\<close>

fun nonceLoop_max :: "'h NonceInfo \<Rightarrow> 'h NonceInfo list \<Rightarrow> 'h NonceInfo" where
  "nonceLoop_max mx [] = mx"
| "nonceLoop_max mx (newNonce # rest) =
     nonceLoop_max (if Difficulty mx < Difficulty newNonce then newNonce else mx) rest"

definition nonceLoop_select :: "('h::zero) NonceInfo list \<Rightarrow> 'h NonceInfo" where
  "nonceLoop_select rs = nonceLoop_max NonceInfo_zero rs"

text \<open>What the two modes write, and how the process goes on after the verification.\<close>

datatype 'h event =
    LogVerifyResult bool
  | LogFatalInvalidNonce "'h NonceInfo" 'h
  | PrintNewline
  | PrintNonce "'h NonceInfo"
  | PrintNodeId 'h

datatype 'h outcome = Returned "'h NonceInfo" | ExitNormally | ExitFatal

text \<open>
  \<open>kms.IsIDPubNonceValid\<close> belongs to package crypto/kms: the parameter \<open>valid\<close>, applied
  to the hash, the nonce and the public key as the call sites pass them.
\<close>

definition nonceLoop_report ::
  "('h \<Rightarrow> Uint256 \<Rightarrow> 'k \<Rightarrow> bool) \<Rightarrow> 'k \<Rightarrow> ('h::zero) NonceInfo list \<Rightarrow> 'h event list \<times> 'h outcome" where
  "nonceLoop_report valid publicKey rs =
     (let mx = nonceLoop_select rs
      in ([LogVerifyResult (valid (Hash mx) (Nonce mx) publicKey), PrintNonce mx, PrintNodeId (Hash mx)],
          ExitNormally))"

text \<open>The tail of nonceGen (lines 208-222); logrus' \<open>Fatal\<close> logs and exits the process.\<close>

definition nonceGen_report ::
  "('h \<Rightarrow> Uint256 \<Rightarrow> 'k \<Rightarrow> bool) \<Rightarrow> 'k \<Rightarrow> 'h NonceInfo \<Rightarrow> 'h event list \<times> 'h outcome" where
  "nonceGen_report valid publicKey nonce =
     (if \<not> valid (Hash nonce) (Nonce nonce) publicKey
      then ([PrintNewline, LogFatalInvalidNonce nonce (Hash nonce)], ExitFatal)
      else ([PrintNewline, PrintNonce nonce, PrintNodeId (Hash nonce)], Returned nonce))"

section \<open>One-shot mode: the goroutines of nonceGen as a transition system\<close>

text \<open>
  What nonceGen takes from outside idminer.go, as parameters: \<open>mine.HashBlock\<close>, the
  \<open>Difficulty()\<close> method of its result, the \<open>Inc()\<close> method of \<open>mine.Uint256\<close>,
  \<open>kms.IsIDPubNonceValid\<close>, \<open>publicKey.Serialize()\<close>, the public key itself and the
  package variable \<open>difficulty\<close> set from the command line.
\<close>

record ('k, 'h) deps =
  HashBlock :: "8 word list \<Rightarrow> Uint256 \<Rightarrow> 'h"
  Difficulty_of :: "'h \<Rightarrow> int"
  Inc :: "Uint256 \<Rightarrow> Uint256"
  IsIDPubNonceValid :: "'h \<Rightarrow> Uint256 \<Rightarrow> 'k \<Rightarrow> bool"
  Serialize :: "'k \<Rightarrow> 8 word list"
  publicKey :: 'k
  difficulty :: int

text \<open>
  A worker goroutine (lines 142-178) is at one of five places: at the head of the loop with
  nonce \<open>j\<close>, about to run the \<open>select\<close>; at \<open>progressCh <- currentDifficulty\<close> with the
  hash and its difficulty computed; at the comparison \<open>currentDifficulty >= difficulty\<close>;
  at \<open>nonceCh <- nonce\<close>; or returned.
\<close>

datatype 'h worker =
    WPoll Uint256
  | WSendProgress Uint256 'h int
  | WCompare Uint256 'h int
  | WSendNonce "'h NonceInfo"
  | WReturned

text \<open>The printer goroutine (lines 182-203) with its variables \<open>count\<close> and \<open>current\<close>.\<close>

datatype printer = PRunning int int | PReturned

text \<open>
  The goroutine that runs nonceGen itself, from line 205 on: at \<open><-nonceCh\<close>, at
  \<open>close(stopCh)\<close>, at \<open>wg.Wait()\<close>, or finished with what it wrote and how it ended.
\<close>

datatype 'h coordinator =
    CReceive
  | CClose "'h NonceInfo"
  | CWait "'h NonceInfo"
  | CFinished "'h event list" "'h outcome"

text \<open>
  The shared state: the goroutines, whether \<open>stopCh\<close> is closed, the contents of the two
  buffered channels (oldest first), and the status lines the printer wrote, as pairs of
  \<open>count\<close> and \<open>current\<close>.
\<close>

record 'h state =
  workers :: "'h worker list"
  printer :: printer
  coordinator :: "'h coordinator"
  stopClosed :: bool
  nonceCh :: "'h NonceInfo list"
  progressCh :: "int list"
  statusLines :: "(int \<times> int) list"

text \<open>\<open>progressCh := make(chan int, 100)\<close>; \<open>nonceCh\<close> has room for \<open>cpuCount\<close> values.\<close>

definition progressCap :: nat where
  "progressCap = 100"

text \<open>
  A send on a buffered channel goes through when the buffer has room and blocks otherwise;
  the value is appended, nothing is dropped. \<open>None\<close> is "cannot proceed now".
\<close>

definition chan_send :: "nat \<Rightarrow> 'a list \<Rightarrow> 'a \<Rightarrow> 'a list option" where
  "chan_send cap buf v = (if length buf < cap then Some (buf @ [v]) else None)"

text \<open>One step of worker \<open>i\<close>.\<close>

definition worker_step :: "('k, 'h) deps \<Rightarrow> nat \<Rightarrow> 'h state \<Rightarrow> 'h state option" where
  "worker_step E i s =
     (if i < length (workers s) then
        (case workers s ! i of
           WPoll j \<Rightarrow>
             if stopClosed s then Some (s\<lparr>workers := (workers s)[i := WReturned]\<rparr>)
             else
               (let currentHash = HashBlock E (Serialize E (publicKey E)) j;
                    currentDifficulty = Difficulty_of E currentHash
                in Some (s\<lparr>workers := (workers s)[i := WSendProgress j currentHash currentDifficulty]\<rparr>))
         | WSendProgress j currentHash currentDifficulty \<Rightarrow>
             (case chan_send progressCap (progressCh s) currentDifficulty of
                None \<Rightarrow> None
              | Some buf \<Rightarrow>
                  Some (s\<lparr>progressCh := buf,
                          workers := (workers s)[i := WCompare j currentHash currentDifficulty]\<rparr>))
         | WCompare j currentHash currentDifficulty \<Rightarrow>
             Some (s\<lparr>workers := (workers s)[i :=
                     (if currentDifficulty \<ge> difficulty E
                      then WSendNonce \<lparr>Nonce = j, Difficulty = currentDifficulty, Hash = currentHash\<rparr>
                      else WPoll (Inc E j))]\<rparr>)
         | WSendNonce nonce \<Rightarrow>
             (case chan_send (length (workers s)) (nonceCh s) nonce of
                None \<Rightarrow> None
              | Some buf \<Rightarrow> Some (s\<lparr>nonceCh := buf, workers := (workers s)[i := WReturned]\<rparr>))
         | WReturned \<Rightarrow> None)
      else None)"

text \<open>
  The printer's \<open>select\<close> has three cases; Go picks any one that is ready, so each is a
  step of its own. The ticker's case is ready whenever a second has passed.
\<close>

datatype printer_case = OnStop | OnProgress | OnTick

definition printer_step :: "printer_case \<Rightarrow> 'h state \<Rightarrow> 'h state option" where
  "printer_step c s =
     (case printer s of
        PReturned \<Rightarrow> None
      | PRunning count current \<Rightarrow>
          (case c of
             OnStop \<Rightarrow> if stopClosed s then Some (s\<lparr>printer := PReturned\<rparr>) else None
           | OnProgress \<Rightarrow>
               (case progressCh s of
                  [] \<Rightarrow> None
                | mined # rest \<Rightarrow>
                    if mined > current
                    then Some (s\<lparr>progressCh := rest, printer := PRunning count mined,
                                 statusLines := statusLines s @ [(count, mined)]\<rparr>)
                    else Some (s\<lparr>progressCh := rest\<rparr>))
           | OnTick \<Rightarrow>
               Some (s\<lparr>printer := PRunning (count + 1) current,
                       statusLines := statusLines s @ [(count + 1, current)]\<rparr>)))"

text \<open>
  The coordinator: \<open>nonce := <-nonceCh\<close>, \<open>close(stopCh)\<close>, then \<open>wg.Wait()\<close>, which
  returns once every worker and the printer have returned, then the report.
\<close>

definition coordinator_step :: "('k, 'h) deps \<Rightarrow> 'h state \<Rightarrow> 'h state option" where
  "coordinator_step E s =
     (case coordinator s of
        CReceive \<Rightarrow>
          (case nonceCh s of
             [] \<Rightarrow> None
           | nonce # rest \<Rightarrow> Some (s\<lparr>nonceCh := rest, coordinator := CClose nonce\<rparr>))
      | CClose nonce \<Rightarrow> Some (s\<lparr>stopClosed := True, coordinator := CWait nonce\<rparr>)
      | CWait nonce \<Rightarrow>
          if list_all (\<lambda>w. w = WReturned) (workers s) \<and> printer s = PReturned
          then (case nonceGen_report (IsIDPubNonceValid E) (publicKey E) nonce of
                  (out, res) \<Rightarrow> Some (s\<lparr>coordinator := CFinished out res\<rparr>))
          else None
      | CFinished out res \<Rightarrow> None)"

datatype actor = Worker nat | Printer printer_case | Coordinator

definition step :: "('k, 'h) deps \<Rightarrow> actor \<Rightarrow> 'h state \<Rightarrow> 'h state option" where
  "step E a s =
     (case a of
        Worker i \<Rightarrow> worker_step E i s
      | Printer c \<Rightarrow> printer_step c s
      | Coordinator \<Rightarrow> coordinator_step E s)"

text \<open>A schedule is the order in which the goroutines take their steps.\<close>

fun run :: "('k, 'h) deps \<Rightarrow> actor list \<Rightarrow> 'h state \<Rightarrow> 'h state option" where
  "run E [] s = Some s"
| "run E (a # as) s = (case step E a s of None \<Rightarrow> None | Some s' \<Rightarrow> run E as s')"

text \<open>The state when the coordinator reaches line 205: every goroutine started.\<close>

definition nonceGen_init :: "nat \<Rightarrow> (nat \<Rightarrow> 32 word) \<Rightarrow> 'h state option" where
  "nonceGen_init cpuCount rnd =
     (case nonceGen_starts cpuCount rnd of
        None \<Rightarrow> None
      | Some starts \<Rightarrow>
          Some \<lparr>workers = map WPoll starts, printer = PRunning 0 0, coordinator = CReceive,
                stopClosed = False, nonceCh = [], progressCh = [], statusLines = []\<rparr>)"

inductive reachable :: "('k, 'h) deps \<Rightarrow> nat \<Rightarrow> (nat \<Rightarrow> 32 word) \<Rightarrow> 'h state \<Rightarrow> bool"
  for E :: "('k, 'h) deps" and cpuCount :: nat and rnd :: "nat \<Rightarrow> 32 word" where
  reachable_init: "nonceGen_init cpuCount rnd = Some s \<Longrightarrow> reachable E cpuCount rnd s"
| reachable_step: "reachable E cpuCount rnd s \<Longrightarrow> step E a s = Some s' \<Longrightarrow> reachable E cpuCount rnd s'"

text \<open>
  No goroutine can take a step and nonceGen has not finished: every goroutine that is left
  waits for another one.
\<close>

definition all_actors :: "nat \<Rightarrow> actor list" where
  "all_actors n = map Worker [0..<n] @ [Printer OnStop, Printer OnProgress, Printer OnTick, Coordinator]"

definition deadlocked :: "('k, 'h) deps \<Rightarrow> 'h state \<Rightarrow> bool" where
  "deadlocked E s =
     (list_all (\<lambda>a. step E a s = None) (all_actors (length (workers s))) \<and>
      (case coordinator s of CFinished out res \<Rightarrow> False | _ \<Rightarrow> True))"

section \<open>Continuous mode: the goroutines of nonceLoop as a transition system\<close>

text \<open>
  A worker of nonceLoop (lines 91-103) runs \<open>miner.ComputeBlockNonce(block, start,
  difficulty)\<close> with its own stop channel \<open>stopChs[i]\<close> and its own unbuffered result
  channel \<open>nonceChs[i]\<close>. It is at the head of its loop with nonce \<open>j\<close>, at the send of a
  result, or returned.
\<close>

datatype 'h loop_worker =
    LPoll Uint256
  | LSend "'h NonceInfo"
  | LReturned

text \<open>
  Modelled from the spec: \<open>ComputeBlockNonce\<close> of package pow/cpuminer, which idminer.go
  calls and does not contain. Section 4.3 of the spec gives the worker: poll the
  cancellation signal, hash the data with the current nonce, take the difficulty, "if
  difficulty \<ge> target: emit NonceResult and terminate", else increment the nonce and go
  on; the \<open>MiningBlock\<close> that nonceLoop builds has no progress channel. For a cancelled
  worker the spec has two readings. Section 4.4 and the policy (a) of section 9: "worker
  exit must guarantee a send on its result channel even when stopped by cancellation",
  "workers guarantee some placeholder/sentinel result on cancellation". Section 4.3: "if
  set, stop immediately without reporting a result". The parameter \<open>cancelResult\<close> is
  \<open>Some placeholder\<close> for the first reading and \<open>None\<close> for the second. The result of a
  step is the worker's next place; \<open>None\<close> is "cannot proceed": a send on the unbuffered
  channel completes only together with the coordinator's receive.
\<close>

definition ComputeBlockNonce_step ::
  "('k, 'h) deps \<Rightarrow> 'h NonceInfo option \<Rightarrow> bool \<Rightarrow> 'h loop_worker \<Rightarrow> 'h loop_worker option" where
  "ComputeBlockNonce_step E cancelResult stopped w =
     (case w of
        LPoll j \<Rightarrow>
          if stopped then
            (case cancelResult of
               Some placeholder \<Rightarrow> Some (LSend placeholder)
             | None \<Rightarrow> Some LReturned)
          else
            (let currentHash = HashBlock E (Serialize E (publicKey E)) j;
                 currentDifficulty = Difficulty_of E currentHash
             in if currentDifficulty \<ge> difficulty E
                then Some (LSend \<lparr>Nonce = j, Difficulty = currentDifficulty, Hash = currentHash\<rparr>)
                else Some (LPoll (Inc E j)))
      | LSend r \<Rightarrow> None
      | LReturned \<Rightarrow> None)"

text \<open>
  The goroutine that runs nonceLoop, from line 106 on: waiting for the signal of
  \<open>utils.WaitForExit()\<close>; in the loop that closes \<open>stopChs[i]\<close>, with \<open>i\<close>; in the loop
  that reads \<open>nonceChs[i]\<close>, with the results read so far, \<open>i\<close> being their number; or
  finished with what it wrote.
\<close>

datatype 'h loop_coordinator =
    LWaitSignal
  | LClose nat
  | LCollect "'h NonceInfo list"
  | LFinished "'h event list" "'h outcome"

record 'h loop_state =
  loop_workers :: "'h loop_worker list"
  stopChs :: "bool list"
  loop_coordinator :: "'h loop_coordinator"

text \<open>
  The coordinator's steps (lines 106-125). \<open>close(stopChs[i])\<close> never waits. The read
  \<open>newNonce := <-nonceChs[i]\<close> goes through when worker \<open>i\<close> is at its send, which
  completes with it, after which \<open>ComputeBlockNonce\<close> returns and the goroutine ends.
  \<open>max\<close> is \<open>nonceLoop_max\<close> over the results read, in the order they are read.
\<close>

definition loop_coordinator_step :: "('k, 'h::zero) deps \<Rightarrow> 'h loop_state \<Rightarrow> 'h loop_state option" where
  "loop_coordinator_step E s =
     (case loop_coordinator s of
        LWaitSignal \<Rightarrow> None
      | LClose i \<Rightarrow>
          if i < length (loop_workers s)
          then Some (s\<lparr>stopChs := (stopChs s)[i := True], loop_coordinator := LClose (i + 1)\<rparr>)
          else Some (s\<lparr>loop_coordinator := LCollect []\<rparr>)
      | LCollect rs \<Rightarrow>
          if length rs < length (loop_workers s)
          then (case loop_workers s ! length rs of
                  LSend newNonce \<Rightarrow>
                    Some (s\<lparr>loop_workers := (loop_workers s)[length rs := LReturned],
                            loop_coordinator := LCollect (rs @ [newNonce])\<rparr>)
                | _ \<Rightarrow> None)
          else (case nonceLoop_report (IsIDPubNonceValid E) (publicKey E) rs of
                  (out, res) \<Rightarrow> Some (s\<lparr>loop_coordinator := LFinished out res\<rparr>))
      | LFinished out res \<Rightarrow> None)"

text \<open>
  The steps of the system: a worker, the arrival of the signal, the coordinator.
\<close>

datatype loop_actor = LWorker nat | LSignal | LCoordinator

definition loop_step ::
  "('k, 'h::zero) deps \<Rightarrow> 'h NonceInfo option \<Rightarrow> loop_actor \<Rightarrow> 'h loop_state \<Rightarrow> 'h loop_state option" where
  "loop_step E cancelResult a s =
     (case a of
        LWorker i \<Rightarrow>
          if i < length (loop_workers s) \<and> i < length (stopChs s)
          then (case ComputeBlockNonce_step E cancelResult (stopChs s ! i) (loop_workers s ! i) of
                  None \<Rightarrow> None
                | Some w \<Rightarrow> Some (s\<lparr>loop_workers := (loop_workers s)[i := w]\<rparr>))
          else None
      | LSignal \<Rightarrow>
          (case loop_coordinator s of
             LWaitSignal \<Rightarrow> Some (s\<lparr>loop_coordinator := LClose 0\<rparr>)
           | _ \<Rightarrow> None)
      | LCoordinator \<Rightarrow> loop_coordinator_step E s)"

fun loop_run ::
  "('k, 'h::zero) deps \<Rightarrow> 'h NonceInfo option \<Rightarrow> loop_actor list \<Rightarrow> 'h loop_state \<Rightarrow> 'h loop_state option" where
  "loop_run E cancelResult [] s = Some s"
| "loop_run E cancelResult (a # as) s =
     (case loop_step E cancelResult a s of None \<Rightarrow> None | Some s' \<Rightarrow> loop_run E cancelResult as s')"

definition nonceLoop_init :: "nat \<Rightarrow> (nat \<Rightarrow> 32 word) \<Rightarrow> 'h loop_state option" where
  "nonceLoop_init cpuCount rnd =
     (case nonceLoop_starts cpuCount rnd of
        None \<Rightarrow> None
      | Some starts \<Rightarrow>
          Some \<lparr>loop_workers = map LPoll starts, stopChs = replicate cpuCount False,
                loop_coordinator = LWaitSignal\<rparr>)"

inductive loop_reachable ::
  "('k, 'h::zero) deps \<Rightarrow> 'h NonceInfo option \<Rightarrow> nat \<Rightarrow> (nat \<Rightarrow> 32 word) \<Rightarrow> 'h loop_state \<Rightarrow> bool"
  for E :: "('k, 'h::zero) deps" and cancelResult :: "'h NonceInfo option" and cpuCount :: nat
    and rnd :: "nat \<Rightarrow> 32 word" where
  loop_reachable_init: "nonceLoop_init cpuCount rnd = Some s \<Longrightarrow> loop_reachable E cancelResult cpuCount rnd s"
| loop_reachable_step:
    "loop_reachable E cancelResult cpuCount rnd s \<Longrightarrow> loop_step E cancelResult a s = Some s' \<Longrightarrow>
     loop_reachable E cancelResult cpuCount rnd s'"

text \<open>A run of nonceLoop from its start under a schedule.\<close>

definition nonceLoop_run ::
  "('k, 'h::zero) deps \<Rightarrow> 'h NonceInfo option \<Rightarrow> nat \<Rightarrow> (nat \<Rightarrow> 32 word) \<Rightarrow> loop_actor list \<Rightarrow>
   'h loop_state option" where
  "nonceLoop_run E cancelResult cpuCount rnd sched =
     Option.bind (nonceLoop_init cpuCount rnd) (loop_run E cancelResult sched)"

text \<open>
  What holds in every state nonceLoop reaches when a cancelled worker sends a result: the
  stop channels are closed in index order and all of them before the first read; the
  workers whose result was read have returned, the others have not.
\<close>

definition loop_invariant :: "nat \<Rightarrow> 'h loop_state \<Rightarrow> bool" where
  "loop_invariant cpuCount s \<longleftrightarrow>
     length (loop_workers s) = cpuCount \<and> length (stopChs s) = cpuCount \<and>
     (case loop_coordinator s of
        LWaitSignal \<Rightarrow> list_all (\<lambda>w. w \<noteq> LReturned) (loop_workers s)
      | LClose i \<Rightarrow>
          i \<le> cpuCount \<and> list_all (\<lambda>b. b) (take i (stopChs s)) \<and>
          list_all (\<lambda>w. w \<noteq> LReturned) (loop_workers s)
      | LCollect rs \<Rightarrow>
          length rs \<le> cpuCount \<and> list_all (\<lambda>b. b) (stopChs s) \<and>
          list_all (\<lambda>w. w = LReturned) (take (length rs) (loop_workers s)) \<and>
          list_all (\<lambda>w. w \<noteq> LReturned) (drop (length rs) (loop_workers s))
      | LFinished out res \<Rightarrow> list_all (\<lambda>w. w = LReturned) (loop_workers s))"

text \<open>
  The number of steps left in the collection phase: one for each worker still at the head
  of its loop, one for each result still to read and one to report.
\<close>

fun at_poll :: "'h loop_worker \<Rightarrow> bool" where
  "at_poll (LPoll j) = True"
| "at_poll (LSend r) = False"
| "at_poll LReturned = False"

definition collect_measure :: "'h loop_state \<Rightarrow> nat" where
  "collect_measure s =
     length (filter at_poll (loop_workers s)) +
     (case loop_coordinator s of
        LCollect rs \<Rightarrow> length (loop_workers s) - length rs + 1
      | _ \<Rightarrow> 0)"

section \<open>Properties of the states nonceGen can reach\<close>

text \<open>
  A result agrees with the hash function: its hash is the hash of the data and its nonce,
  its difficulty is the difficulty of that hash, and the difficulty meets the target.
\<close>

definition result_consistent :: "('k, 'h) deps \<Rightarrow> 'h NonceInfo \<Rightarrow> bool" where
  "result_consistent E n \<longleftrightarrow>
     Hash n = HashBlock E (Serialize E (publicKey E)) (Nonce n) \<and>
     Difficulty n = Difficulty_of E (Hash n) \<and>
     difficulty E \<le> Difficulty n"

fun worker_ok :: "('k, 'h) deps \<Rightarrow> 'h worker \<Rightarrow> bool" where
  "worker_ok E (WPoll j) = True"
| "worker_ok E (WSendProgress j h d) =
     (h = HashBlock E (Serialize E (publicKey E)) j \<and> d = Difficulty_of E h)"
| "worker_ok E (WCompare j h d) =
     (h = HashBlock E (Serialize E (publicKey E)) j \<and> d = Difficulty_of E h)"
| "worker_ok E (WSendNonce n) = result_consistent E n"
| "worker_ok E WReturned = True"

fun coordinator_ok :: "('k, 'h) deps \<Rightarrow> 'h coordinator \<Rightarrow> bool" where
  "coordinator_ok E CReceive = True"
| "coordinator_ok E (CClose n) = result_consistent E n"
| "coordinator_ok E (CWait n) = result_consistent E n"
| "coordinator_ok E (CFinished out res) =
     (case res of Returned n \<Rightarrow> result_consistent E n | ExitNormally \<Rightarrow> True | ExitFatal \<Rightarrow> True)"

definition returned_count :: "'h worker list \<Rightarrow> nat" where
  "returned_count ws = length (filter (\<lambda>w. w = WReturned) ws)"

definition invariant :: "('k, 'h) deps \<Rightarrow> 'h state \<Rightarrow> bool" where
  "invariant E s \<longleftrightarrow>
     list_all (worker_ok E) (workers s) \<and>
     list_all (result_consistent E) (nonceCh s) \<and>
     coordinator_ok E (coordinator s) \<and>
     length (nonceCh s) \<le> returned_count (workers s) \<and>
     length (progressCh s) \<le> progressCap"

section \<open>Concrete runs\<close>

text \<open>
  Modelled from the spec: the method \<open>Inc\<close> of \<open>mine.Uint256\<close> (package pow/cpuminer) that
  the worker's loop calls, the spec's \<open>Increment()\<close>: "adds 1, propagating carry from
  least-significant to most-significant limb; wraps silently on full overflow", over the
  limbs that the spec names \<open>A\<close>, \<open>B\<close>, \<open>C\<close>, \<open>D\<close> "most-significant to
  least-significant" (idminer.go itself shows only which limb each position writes). The
  transition system takes \<open>Inc\<close> as a parameter; this definition only fills that
  parameter where a run is evaluated, and no statement depends on which limb it counts in.
\<close>

definition Uint256_Inc :: "Uint256 \<Rightarrow> Uint256" where
  "Uint256_Inc u =
     (if D u + 1 \<noteq> 0 then u\<lparr>D := D u + 1\<rparr>
      else if C u + 1 \<noteq> 0 then u\<lparr>D := 0, C := C u + 1\<rparr>
      else if B u + 1 \<noteq> 0 then u\<lparr>D := 0, C := 0, B := B u + 1\<rparr>
      else u\<lparr>D := 0, C := 0, B := 0, A := A u + 1\<rparr>)"

text \<open>A run of nonceGen from its start under a schedule.\<close>

definition nonceGen_run ::
  "('k, 'h) deps \<Rightarrow> nat \<Rightarrow> (nat \<Rightarrow> 32 word) \<Rightarrow> actor list \<Rightarrow> 'h state option" where
  "nonceGen_run E cpuCount rnd sched = Option.bind (nonceGen_init cpuCount rnd) (run E sched)"

text \<open>
  A hash function whose every hash has difficulty 0, with the target 0 and with the
  default target 24 of the \<open>-difficulty\<close> flag; the draws of \<open>rand.Uint32()\<close>.
\<close>

definition flat_deps :: "int \<Rightarrow> (unit, nat) deps" where
  "flat_deps target =
     \<lparr>HashBlock = (\<lambda>data j. 0), Difficulty_of = (\<lambda>h. 0), Inc = Uint256_Inc,
      IsIDPubNonceValid = (\<lambda>h n k. True), Serialize = (\<lambda>k. []), publicKey = (),
      difficulty = target\<rparr>"

definition jitter :: "nat \<Rightarrow> 32 word" where
  "jitter i = of_nat (1000 * i + 7)"

text \<open>
  A state with one worker in which neither the printer nor the coordinator has taken a step.
  With the target 24 the worker goes a hundred times round its loop and reaches the send of
  its next sample: \<open>stall_state\<close>.
\<close>

definition one_worker_state :: "nat worker \<Rightarrow> int list \<Rightarrow> nat NonceInfo list \<Rightarrow> nat state" where
  "one_worker_state w samples results =
     \<lparr>workers = [w], printer = PRunning 0 0, coordinator = CReceive, stopClosed = False,
      nonceCh = results, progressCh = samples, statusLines = []\<rparr>"

definition stall_state :: "nat state" where
  "stall_state =
     one_worker_state (WSendProgress \<lparr>A = 8, B = 0, C = 0, D = 100\<rparr> 0 0) (replicate 100 0) []"

text \<open>
  101 workers, target 0. Workers 0 to 99 hash their first nonce, send their sample and
  compare; worker 100 hashes its first nonce; worker 0 sends its result; the coordinator receives it
  and closes \<open>stopCh\<close>; the printer's \<open>select\<close> takes the closed \<open>stopCh\<close>; workers 1 to 99
  send their results and return.
\<close>

definition full_buffer_schedule :: "actor list" where
  "full_buffer_schedule = concat (map (\<lambda>i. [Worker i, Worker i, Worker i]) [0..<100]) @ [Worker 100]"

definition deadlock_schedule :: "actor list" where
  "deadlock_schedule =
     full_buffer_schedule @ [Worker 0, Coordinator, Coordinator, Printer OnStop] @ map Worker [1..<100]"

text \<open>
  The states of that run: 101 workers, worker \<open>i\<close> at the place \<open>W i\<close>, and a progress
  channel that holds \<open>samples\<close> samples, all of them 0. \<open>first_result i\<close> is the result
  worker \<open>i\<close> makes of its first nonce (\<open>256 / 101 = 2\<close>). In \<open>deadlock_state\<close> workers
  0 to 99 have returned and worker 100 is at the send of its sample.
\<close>

definition many_worker_state ::
  "(nat \<Rightarrow> nat worker) \<Rightarrow> printer \<Rightarrow> nat coordinator \<Rightarrow> bool \<Rightarrow> nat NonceInfo list \<Rightarrow> nat \<Rightarrow> nat state" where
  "many_worker_state W p c stop results samples =
     \<lparr>workers = map W [0..<101], printer = p, coordinator = c, stopClosed = stop,
      nonceCh = results, progressCh = replicate samples 0, statusLines = []\<rparr>"

definition first_nonce :: "nat \<Rightarrow> Uint256" where
  "first_nonce i = nonceGen_start 2 i (jitter i)"

definition first_result :: "nat \<Rightarrow> nat NonceInfo" where
  "first_result i = \<lparr>Nonce = first_nonce i, Difficulty = 0, Hash = 0\<rparr>"

definition deadlock_state :: "nat state" where
  "deadlock_state =
     many_worker_state (\<lambda>i. if i < 100 then WReturned else WSendProgress (first_nonce i) 0 0)
       PReturned (CWait (first_result 0)) True (map first_result [1..<100]) 100"

text \<open>
  Two workers, target 24, and a hash function under which a nonce meets the target exactly
  when its limb \<open>C\<close> is not zero: the first nonce of worker 1 does, the nonces worker 0
  tries do not. Worker 0 goes 99 times round its loop and hashes once more; worker 1 hashes
  its first nonce, sends its sample and its result and returns; the coordinator receives
  the result and closes \<open>stopCh\<close>; the printer's \<open>select\<close> takes the closed \<open>stopCh\<close>.
\<close>

definition split_deps :: "(unit, nat) deps" where
  "split_deps =
     \<lparr>HashBlock = (\<lambda>data j. unat (C j)), Difficulty_of = (\<lambda>h. if h = 0 then 0 else 24),
      Inc = Uint256_Inc, IsIDPubNonceValid = (\<lambda>h n k. True), Serialize = (\<lambda>k. []),
      publicKey = (), difficulty = 24\<rparr>"

definition two_worker_schedule :: "actor list" where
  "two_worker_schedule =
     concat (replicate 99 [Worker 0, Worker 0, Worker 0]) @
     [Worker 0, Worker 1, Worker 1, Worker 1, Worker 1, Coordinator, Coordinator, Printer OnStop]"

definition two_worker_deadlock :: "nat state" where
  "two_worker_deadlock =
     \<lparr>workers = [WSendProgress \<lparr>A = 8, B = 0, C = 0, D = 99\<rparr> 0 0, WReturned],
      printer = PReturned,
      coordinator = CWait \<lparr>Nonce = \<lparr>A = 0, B = 0, C = 1008, D = 0\<rparr>, Difficulty = 24, Hash = 1008\<rparr>,
      stopClosed = True, nonceCh = [], progressCh = replicate 99 0 @ [24], statusLines = []\<rparr>"

text \<open>Whether worker \<open>i\<close> is at the send of a progress sample and cannot complete it.\<close>

definition stalled_on_progress :: "('k, 'h) deps \<Rightarrow> nat \<Rightarrow> 'h state \<Rightarrow> bool" where
  "stalled_on_progress E i s =
     (i < length (workers s) \<and>
      (case workers s ! i of WSendProgress j h d \<Rightarrow> step E (Worker i) s = None | _ \<Rightarrow> False))"

text \<open>
  A verifier that rejects every result, and the state of a one-worker run in which the
  worker and the printer have returned and the coordinator holds \<open>nonce\<close> in \<open>wg.Wait()\<close>.
\<close>

definition rejecting_deps :: "(unit, nat) deps" where
  "rejecting_deps =
     \<lparr>HashBlock = (\<lambda>data j. 0), Difficulty_of = (\<lambda>h. 0), Inc = Uint256_Inc,
      IsIDPubNonceValid = (\<lambda>h n k. False), Serialize = (\<lambda>k. []), publicKey = (),
      difficulty = 0\<rparr>"

definition waiting_state :: "nat NonceInfo \<Rightarrow> nat state" where
  "waiting_state nonce =
     \<lparr>workers = [WReturned], printer = PReturned, coordinator = CWait nonce, stopClosed = True,
      nonceCh = [], progressCh = [0], statusLines = []\<rparr>"

text \<open>
  States of nonceLoop with the target 24 and workers that find nothing. Two workers, every
  stop channel closed, nothing read yet; the same run after both results were read and
  reported; and, for a worker that returns without a result when cancelled, one worker
  returned and the coordinator at its read.
\<close>

definition collecting_state :: "nat loop_state" where
  "collecting_state =
     \<lparr>loop_workers = [LPoll \<lparr>A = 0, B = 0, C = 0, D = 7\<rparr>,
                      LPoll \<lparr>A = 0, B = 0, C = 0, D = 9223372036854776814\<rparr>],
      stopChs = [True, True], loop_coordinator = LCollect []\<rparr>"

definition collected_state :: "nat loop_state" where
  "collected_state =
     \<lparr>loop_workers = [LReturned, LReturned], stopChs = [True, True],
      loop_coordinator =
        LFinished [LogVerifyResult True, PrintNonce NonceInfo_zero, PrintNodeId 0] ExitNormally\<rparr>"

definition unanswered_state :: "nat loop_state" where
  "unanswered_state =
     \<lparr>loop_workers = [LReturned], stopChs = [True], loop_coordinator = LCollect []\<rparr>"

text \<open>Four collected results with the difficulties 5, 9, 3, 9.\<close>

definition result_of :: "64 word \<Rightarrow> int \<Rightarrow> nat NonceInfo" where
  "result_of a d = \<lparr>Nonce = \<lparr>A = a, B = 0, C = 0, D = 0\<rparr>, Difficulty = d, Hash = unat a + 10\<rparr>"

definition example_results :: "nat NonceInfo list" where
  "example_results = [result_of 1 5, result_of 2 9, result_of 3 3, result_of 4 9]"

section \<open>Winner selection in continuous mode\<close>

lemma nonceLoop_max_cases:
  "(nonceLoop_max mx rs = mx \<and> (\<forall>r\<in>set rs. Difficulty r \<le> Difficulty mx)) \<or>
   (\<exists>k<length rs. nonceLoop_max mx rs = rs ! k \<and> Difficulty mx < Difficulty (rs ! k) \<and>
      (\<forall>j<length rs. Difficulty (rs ! j) \<le> Difficulty (rs ! k)) \<and>
      (\<forall>j<k. Difficulty (rs ! j) < Difficulty (rs ! k)))"
proof (induction rs arbitrary: mx)
  case Nil
  then show ?case by simp
next
  case (Cons r rs)
  let ?m = "if Difficulty mx < Difficulty r then r else mx"
  from Cons.IH [of ?m] show ?case
  proof (elim disjE conjE exE)
    assume keep: "nonceLoop_max ?m rs = ?m" and le: "\<forall>x\<in>set rs. Difficulty x \<le> Difficulty ?m"
    show ?thesis
    proof (cases "Difficulty mx < Difficulty r")
      case True
      with keep le have "nonceLoop_max mx (r # rs) = (r # rs) ! 0 \<and> Difficulty mx < Difficulty ((r # rs) ! 0) \<and>
        (\<forall>j<length (r # rs). Difficulty ((r # rs) ! j) \<le> Difficulty ((r # rs) ! 0)) \<and>
        (\<forall>j<0. Difficulty ((r # rs) ! j) < Difficulty ((r # rs) ! 0))"
        by (auto simp: nth_Cons split: nat.splits)
      then show ?thesis by blast
    next
      case False
      with keep le show ?thesis by auto
    qed
  next
    fix k
    assume k: "k < length rs" and sel: "nonceLoop_max ?m rs = rs ! k"
      and gt: "Difficulty ?m < Difficulty (rs ! k)"
      and mx: "\<forall>j<length rs. Difficulty (rs ! j) \<le> Difficulty (rs ! k)"
      and first: "\<forall>j<k. Difficulty (rs ! j) < Difficulty (rs ! k)"
    have "Suc k < length (r # rs) \<and> nonceLoop_max mx (r # rs) = (r # rs) ! Suc k \<and>
        Difficulty mx < Difficulty ((r # rs) ! Suc k) \<and>
        (\<forall>j<length (r # rs). Difficulty ((r # rs) ! j) \<le> Difficulty ((r # rs) ! Suc k)) \<and>
        (\<forall>j<Suc k. Difficulty ((r # rs) ! j) < Difficulty ((r # rs) ! Suc k))"
      using k sel gt mx first by (auto simp: nth_Cons split: nat.splits if_splits)
    then show ?thesis by blast
  qed
qed

lemma example_results_select: "nonceLoop_select example_results = result_of 2 9"
  by (simp add: nonceLoop_select_def NonceInfo_zero_def example_results_def result_of_def)

text \<open>
  C2, as stated, fails: a single collected result of difficulty 0 is the result of maximum
  difficulty among the collected ones, and the coordinator does not select it.
\<close>

theorem nonceLoop_select_zero_difficulty_counterexample:
  "nonceLoop_select [result_of 5 0] \<noteq> result_of 5 0"
  by (simp add: nonceLoop_select_def NonceInfo_zero_def result_of_def Uint256_zero_def)

text \<open>
  C2, amended: when some collected result has a difficulty above 0, the coordinator selects
  the result at the first index \<open>k\<close>, in worker order, whose difficulty is the maximum:
  no result has a greater difficulty and every earlier one has a smaller difficulty.
\<close>

theorem nonceLoop_select_first_max:
  assumes "\<exists>r\<in>set rs. 0 < Difficulty r"
  shows "\<exists>k<length rs. nonceLoop_select rs = rs ! k \<and>
           (\<forall>j<length rs. Difficulty (rs ! j) \<le> Difficulty (rs ! k)) \<and>
           (\<forall>j<k. Difficulty (rs ! j) < Difficulty (rs ! k))"
  using nonceLoop_max_cases [of "NonceInfo_zero" rs] assms
  by (auto simp: nonceLoop_select_def NonceInfo_zero_def)

theorem nonceLoop_select_first_max_witness:
  "(\<exists>r\<in>set example_results. 0 < Difficulty r) \<and>
   (\<exists>k<length example_results. nonceLoop_select example_results = example_results ! k \<and>
      (\<forall>j<length example_results. Difficulty (example_results ! j) \<le> Difficulty (example_results ! k)) \<and>
      (\<forall>j<k. Difficulty (example_results ! j) < Difficulty (example_results ! k)))"
proof -
  have h: "\<exists>r\<in>set example_results. 0 < Difficulty r"
    by (simp add: example_results_def result_of_def)
  show ?thesis using h nonceLoop_select_first_max [OF h] by blast
qed

text \<open>
  C10: the accumulator starts as the zero-valued result and is replaced only by a result of
  strictly greater difficulty. So the selected value is the zero-valued result or a collected
  result of difficulty above 0, a collected result of difficulty 0 (or less) at the head of
  the remaining list leaves the accumulator as it is, and when no collected result has a
  difficulty above 0 the coordinator verifies and prints the zero-valued result.
\<close>

theorem nonceLoop_select_placeholder:
  "(nonceLoop_select rs = NonceInfo_zero \<or>
      (nonceLoop_select rs \<in> set rs \<and> 0 < Difficulty (nonceLoop_select rs))) \<and>
   (Difficulty newNonce \<le> Difficulty mx \<longrightarrow>
      nonceLoop_max mx (newNonce # rest) = nonceLoop_max mx rest) \<and>
   ((\<forall>r\<in>set rs. Difficulty r \<le> 0) \<longrightarrow>
      nonceLoop_select rs = \<lparr>Nonce = \<lparr>A = 0, B = 0, C = 0, D = 0\<rparr>, Difficulty = 0, Hash = 0\<rparr> \<and>
      nonceLoop_report valid pk rs =
        ([LogVerifyResult (valid 0 Uint256_zero pk), PrintNonce NonceInfo_zero, PrintNodeId 0],
         ExitNormally))"
proof -
  have a: "nonceLoop_select rs = NonceInfo_zero \<or>
      (nonceLoop_select rs \<in> set rs \<and> 0 < Difficulty (nonceLoop_select rs))"
    using nonceLoop_max_cases [of "NonceInfo_zero" rs]
    by (auto simp: nonceLoop_select_def NonceInfo_zero_def)
  have b: "nonceLoop_select rs = NonceInfo_zero" if "\<forall>r\<in>set rs. Difficulty r \<le> 0"
    using a that by auto
  show ?thesis
    using a b by (auto simp: nonceLoop_report_def NonceInfo_zero_def Uint256_zero_def)
qed

theorem nonceLoop_select_placeholder_witness:
  "Difficulty (result_of 5 0) \<le> 0 \<and> Difficulty (result_of 6 0) \<le> 0 \<and>
   nonceLoop_select [result_of 5 0, result_of 6 0] = NonceInfo_zero \<and>
   nonceLoop_report (IsIDPubNonceValid (flat_deps 24)) () [result_of 5 0, result_of 6 0] =
     ([LogVerifyResult True, PrintNonce NonceInfo_zero, PrintNodeId 0], ExitNormally) \<and>
   nonceLoop_max (result_of 2 9) (result_of 4 9 # []) = result_of 2 9"
  using nonceLoop_select_placeholder [where rs = "[result_of 5 0, result_of 6 0]"
      and newNonce = "result_of 4 9" and mx = "result_of 2 9" and rest = "[]"
      and valid = "IsIDPubNonceValid (flat_deps 24)" and pk = "()"]
  by (simp add: result_of_def flat_deps_def NonceInfo_zero_def Uint256_zero_def)

section \<open>Verification failure\<close>

text \<open>
  C7: when the verification of the winning result fails, nonceGen writes the fatal log
  entry and the process exits there, with no nonce and no node id printed: that is what the
  coordinator of the one-shot mode does once every goroutine has returned. nonceLoop logs
  the outcome \<open>false\<close>, prints the nonce and the node id of the result it holds and ends
  normally.
\<close>

theorem verification_failure_by_mode:
  "(\<not> valid (Hash nonce) (Nonce nonce) pk \<longrightarrow>
      nonceGen_report valid pk nonce = ([PrintNewline, LogFatalInvalidNonce nonce (Hash nonce)], ExitFatal)) \<and>
   (\<not> IsIDPubNonceValid E (Hash nonce) (Nonce nonce) (publicKey E) \<and> coordinator s = CWait nonce \<and>
      list_all (\<lambda>w. w = WReturned) (workers s) \<and> printer s = PReturned \<longrightarrow>
      step E Coordinator s =
        Some (s\<lparr>coordinator := CFinished [PrintNewline, LogFatalInvalidNonce nonce (Hash nonce)] ExitFatal\<rparr>)) \<and>
   (\<not> valid (Hash (nonceLoop_select rs)) (Nonce (nonceLoop_select rs)) pk \<longrightarrow>
      nonceLoop_report valid pk rs =
        ([LogVerifyResult False, PrintNonce (nonceLoop_select rs), PrintNodeId (Hash (nonceLoop_select rs))],
         ExitNormally))"
proof -
  have gen: "nonceGen_report valid pk nonce = ([PrintNewline, LogFatalInvalidNonce nonce (Hash nonce)], ExitFatal)"
    if "\<not> valid (Hash nonce) (Nonce nonce) pk"
    using that by (simp add: nonceGen_report_def)
  have "step E Coordinator s =
        Some (s\<lparr>coordinator := CFinished [PrintNewline, LogFatalInvalidNonce nonce (Hash nonce)] ExitFatal\<rparr>)"
    if "\<not> IsIDPubNonceValid E (Hash nonce) (Nonce nonce) (publicKey E)" "coordinator s = CWait nonce"
      "list_all (\<lambda>w. w = WReturned) (workers s)" "printer s = PReturned"
    using that by (simp add: step_def coordinator_step_def nonceGen_report_def)
  moreover have "nonceLoop_report valid pk rs =
        ([LogVerifyResult False, PrintNonce (nonceLoop_select rs), PrintNodeId (Hash (nonceLoop_select rs))],
         ExitNormally)"
    if "\<not> valid (Hash (nonceLoop_select rs)) (Nonce (nonceLoop_select rs)) pk"
    using that by (simp add: nonceLoop_report_def Let_def)
  ultimately show ?thesis using gen by blast
qed

theorem verification_failure_by_mode_witness:
  "\<not> IsIDPubNonceValid rejecting_deps (Hash (result_of 2 9)) (Nonce (result_of 2 9)) (publicKey rejecting_deps) \<and>
   nonceGen_report (IsIDPubNonceValid rejecting_deps) () (result_of 2 9) =
     ([PrintNewline, LogFatalInvalidNonce (result_of 2 9) 12], ExitFatal) \<and>
   coordinator (waiting_state (result_of 2 9)) = CWait (result_of 2 9) \<and>
   step rejecting_deps Coordinator (waiting_state (result_of 2 9)) =
     Some ((waiting_state (result_of 2 9))
        \<lparr>coordinator := CFinished [PrintNewline, LogFatalInvalidNonce (result_of 2 9) 12] ExitFatal\<rparr>) \<and>
   nonceLoop_report (IsIDPubNonceValid rejecting_deps) () example_results =
     ([LogVerifyResult False, PrintNonce (result_of 2 9), PrintNodeId 12], ExitNormally)"
proof -
  have v: "\<not> IsIDPubNonceValid rejecting_deps h n k" for h n k
    by (simp add: rejecting_deps_def)
  have h: "Hash (result_of 2 9) = 12" by (simp add: result_of_def)
  have w: "coordinator (waiting_state (result_of 2 9)) = CWait (result_of 2 9)"
    "list_all (\<lambda>w. w = WReturned) (workers (waiting_state (result_of 2 9)))"
    "printer (waiting_state (result_of 2 9)) = PReturned"
    by (simp_all add: waiting_state_def)
  show ?thesis
    using verification_failure_by_mode [where valid = "IsIDPubNonceValid rejecting_deps"
        and nonce = "result_of 2 9" and pk = "()" and rs = example_results and E = rejecting_deps
        and s = "waiting_state (result_of 2 9)"] v w
    by (simp add: example_results_select h)
qed

section \<open>The work partitioner\<close>

lemma unat_MaxUint64: "unat MaxUint64 = 2 ^ 64 - 1"
  by (simp add: MaxUint64_def)

lemma unat_r32: "unat (r :: 32 word) < 2 ^ 32"
  using unsigned_less [of r] by simp

lemma unat_ucast32: "unat (ucast (r :: 32 word) :: 64 word) = unat r"
proof -
  have "unat r < 2 ^ 64" using unat_r32 [of r] by simp
  then show ?thesis by (simp add: unsigned_ucast_eq take_bit_nat_eq_self)
qed

lemma unat_of_nat64: "n < 2 ^ 64 \<Longrightarrow> unat (of_nat n :: 64 word) = n"
  by (simp add: unat_of_nat)

lemma nonceLoop_step_Some:
  assumes "1 \<le> N" "N < 2 ^ 64"
  shows "\<exists>stride. nonceLoop_step N = Some stride \<and> unat stride = (2 ^ 64 - 1) div N"
proof -
  have n: "unat (of_nat N :: 64 word) = N"
    using assms by (simp add: unat_of_nat64)
  then have nz: "(of_nat N :: 64 word) \<noteq> 0"
    using assms by (metis unat_0 not_one_le_zero)
  have "unat (MaxUint64 div of_nat N) = (2 ^ 64 - 1) div N"
    by (simp add: unat_div unat_MaxUint64 n)
  with nz show ?thesis by (simp add: nonceLoop_step_def)
qed

lemma div_stride_bound:
  fixes M N i :: nat
  assumes "i < N"
  shows "M div N * i + M div N \<le> M"
proof -
  have "M div N * Suc i \<le> M div N * N"
    using assms by (intro mult_le_mono2) simp
  also have "\<dots> \<le> M" by (rule div_times_less_eq_dividend)
  finally show ?thesis by simp
qed

lemma linear_no_wrap:
  assumes N: "1 \<le> N" "N \<le> 2 ^ 32" and i: "i < N" and s: "unat (stride :: 64 word) = (2 ^ 64 - 1) div N"
  shows "unat (stride * of_nat i + ucast (r :: 32 word)) = unat stride * i + unat r"
proof -
  define M :: nat where "M = 2 ^ 64 - 1"
  have a: "M div N * i + M div N \<le> M"
    using i by (rule div_stride_bound)
  have "M div (2 ^ 32) \<le> M div N"
    using N by (intro div_le_mono2) auto
  moreover have "M div (2 ^ 32) = 2 ^ 32 - 1" by (simp add: M_def)
  ultimately have b: "2 ^ 32 - 1 \<le> M div N" by simp
  have M: "M < 2 ^ 64" by (simp add: M_def)
  have bound: "M div N * i + unat r < 2 ^ 64"
    using a b M unat_r32 [of r] by linarith
  have i64: "i < 2 ^ 64" using i N by (simp add: less_le_trans [where y = "2 ^ 32"])
  have "unat (stride * of_nat i + ucast r) = (unat stride * i + unat r) mod 2 ^ 64"
    using i64 by (simp add: unat_word_ariths unat_ucast32 unat_of_nat64 mod_simps)
  with bound s show ?thesis by (simp add: M_def)
qed

lemma len64: "LENGTH(64) = 64"
  by simp

lemma pow2_lt_64: "s < 64 \<Longrightarrow> (2 :: nat) ^ s < 2 ^ 64"
  by (rule power_strict_increasing) simp_all

lemma unat_one_shifted:
  assumes "s < 64"
  shows "unat (push_bit s (1 :: 64 word)) = 2 ^ s"
proof -
  have "unat (push_bit s (1 :: 64 word)) = take_bit 64 (push_bit s (unat (1 :: 64 word)))"
    by (simp only: unsigned_push_bit_eq len64)
  also have "\<dots> = take_bit 64 ((2 :: nat) ^ s)" by simp
  also have "\<dots> = 2 ^ s"
    using pow2_lt_64 [OF assms] by (simp only: take_bit_nat_eq_self)
  finally show ?thesis .
qed

lemma unat_bit_plus_jitter:
  assumes "s < 64"
  shows "unat (push_bit s (1 :: 64 word) + ucast (r :: 32 word)) = 2 ^ s + unat r"
proof -
  have "(2 :: nat) ^ s \<le> 2 ^ 63" using assms by (intro power_increasing) auto
  then have lt: "2 ^ s + unat r < 2 ^ 64" using unat_r32 [of r] by simp
  have "unat (push_bit s (1 :: 64 word) + ucast r) = (unat (push_bit s (1 :: 64 word)) + unat (ucast r :: 64 word)) mod 2 ^ 64"
    by (simp only: unat_word_ariths len64)
  also have "\<dots> = (2 ^ s + unat r) mod 2 ^ 64"
    by (simp only: unat_one_shifted [OF assms] unat_ucast32)
  also have "\<dots> = 2 ^ s + unat r" using lt by (rule mod_less)
  finally show ?thesis .
qed

lemma startBit_bound:
  fixes N i :: nat
  assumes "i < N"
  shows "i * (256 div N) < 256"
proof -
  have pos: "0 < 256 div N \<or> 256 div N = 0" by auto
  show ?thesis
  proof (cases "256 div N = 0")
    case True then show ?thesis by simp
  next
    case False
    have "256 div N * Suc i \<le> 256 div N * N" using assms by (intro mult_le_mono2) simp
    also have "\<dots> \<le> 256" by (rule div_times_less_eq_dividend)
    finally show ?thesis using False by (simp add: mult.commute)
  qed
qed

lemma nonceGen_start_limbs:
  assumes "i * stride < 256"
  shows "limb (i * stride div 64) (nonceGen_start stride i r) = push_bit (i * stride mod 64) 1 + ucast r"
    and "p \<noteq> i * stride div 64 \<Longrightarrow> limb p (nonceGen_start stride i r) = 0"
proof -
  have "i * stride div 64 < 4" using assms by simp
  then consider "i * stride div 64 = 0" | "i * stride div 64 = 1" | "i * stride div 64 = 2" | "i * stride div 64 = 3"
    by linarith
  note cases = this
  show "limb (i * stride div 64) (nonceGen_start stride i r) = push_bit (i * stride mod 64) 1 + ucast r"
    by (rule cases) (simp_all add: nonceGen_start_def limb_def Let_def)
  show "p \<noteq> i * stride div 64 \<Longrightarrow> limb p (nonceGen_start stride i r) = 0"
    by (rule cases) (simp_all add: nonceGen_start_def limb_def Let_def)
qed


lemma nonceGen_start_neq:
  assumes bi: "i * stride < 256" and bj: "j * stride < 256" and ij: "i < j" and st: "32 < stride"
  shows "nonceGen_start stride i r \<noteq> nonceGen_start stride j r'"
proof
  assume eq: "nonceGen_start stride i r = nonceGen_start stride j r'"
  let ?p = "i * stride div 64"
  have li: "unat (limb ?p (nonceGen_start stride i r)) = 2 ^ (i * stride mod 64) + unat r"
    by (simp only: nonceGen_start_limbs(1) [OF bi] unat_bit_plus_jitter [OF mod_less_divisor [OF zero_less_numeral]])
  show False
  proof (cases "j * stride div 64 = ?p")
    case True
    have lj: "unat (limb ?p (nonceGen_start stride j r')) = 2 ^ (j * stride mod 64) + unat r'"
      using nonceGen_start_limbs(1) [OF bj, of r'] True
      by (simp only: unat_bit_plus_jitter [OF mod_less_divisor [OF zero_less_numeral]])
    have "i * stride + stride \<le> j * stride"
      using ij by (metis Suc_leI mult_Suc mult_le_mono1 add.commute)
    moreover have "i * stride = 64 * ?p + i * stride mod 64" by simp
    moreover have "j * stride = 64 * ?p + j * stride mod 64" using True by (metis mult_div_mod_eq)
    ultimately have "i * stride mod 64 + 33 \<le> j * stride mod 64" using st by linarith
    then have "(2 :: nat) ^ (i * stride mod 64 + 33) \<le> 2 ^ (j * stride mod 64)"
      by (intro power_increasing) auto
    moreover have "(2 :: nat) ^ (i * stride mod 64) + 2 ^ 32 \<le> 2 ^ (i * stride mod 64 + 33)"
    proof -
      have "(1 :: nat) \<le> 2 ^ (i * stride mod 64)" by simp
      then have "(2 :: nat) ^ 32 \<le> 2 ^ (i * stride mod 64) * 2 ^ 32"
        by (metis mult_le_mono1 nat_mult_1)
      then have "(2 :: nat) ^ (i * stride mod 64) + 2 ^ 32 \<le> 2 ^ (i * stride mod 64) * (1 + 2 ^ 32)"
        by (simp add: algebra_simps)
      also have "\<dots> \<le> 2 ^ (i * stride mod 64) * 2 ^ 33" by (intro mult_le_mono2) simp
      finally show ?thesis by (simp add: power_add)
    qed
    ultimately have "2 ^ (i * stride mod 64) + unat r < 2 ^ (j * stride mod 64) + unat r'"
      using unat_r32 [of r] by linarith
    with li lj eq show False by simp
  next
    case False
    then have "limb ?p (nonceGen_start stride j r') = 0"
      using nonceGen_start_limbs(2) [OF bj, of ?p r'] by simp
    with eq li show False by simp
  qed
qed

lemma nonceGen_starts_distinct:
  assumes "1 \<le> N" "N \<le> 7"
  shows "\<exists>ys. nonceGen_starts N rnd = Some ys \<and> length ys = N \<and> distinct ys"
proof -
  let ?stride = "256 div N"
  let ?ys = "map (\<lambda>i. nonceGen_start ?stride i (rnd i)) [0..<N]"
  have "256 div (7 :: nat) \<le> ?stride" using assms by (intro div_le_mono2) auto
  then have st: "32 < ?stride" by simp
  have neq: "?ys ! i \<noteq> ?ys ! j" if "i < j" "j < N" for i j
  proof -
    have "i * ?stride < 256" "j * ?stride < 256"
      using that by (simp_all add: startBit_bound)
    then have "nonceGen_start ?stride i (rnd i) \<noteq> nonceGen_start ?stride j (rnd j)"
      using \<open>i < j\<close> st by (rule nonceGen_start_neq)
    then show ?thesis using that by simp
  qed
  have "distinct ?ys"
    unfolding distinct_conv_nth
  proof (intro allI impI)
    fix i j assume "i < length ?ys" "j < length ?ys" "i \<noteq> j"
    then show "?ys ! i \<noteq> ?ys ! j"
      using neq [of i j] neq [of j i] by (cases "i < j") (auto simp del: nth_map)
  qed
  then show ?thesis using assms by (simp add: nonceGen_starts_def nonceGen_step_def)
qed

lemma nonceLoop_starts_ordered:
  assumes N: "1 \<le> N" "N < 2 ^ 32"
  shows "\<exists>xs. nonceLoop_starts N rnd = Some xs \<and> length xs = N \<and>
           (\<forall>i<N. A (xs ! i) = 0 \<and> B (xs ! i) = 0 \<and> C (xs ! i) = 0) \<and>
           (\<forall>i j. i < j \<and> j < N \<longrightarrow> D (xs ! i) < D (xs ! j)) \<and> distinct xs"
proof -
  have "N < 2 ^ 64" using N by (simp add: less_trans [where y = "2 ^ 32"])
  with N obtain stride where stride: "nonceLoop_step N = Some stride" "unat stride = (2 ^ 64 - 1) div N"
    using nonceLoop_step_Some [of N] by blast
  let ?xs = "map (\<lambda>i. nonceLoop_start stride i (rnd i)) [0..<N]"
  have "(2 ^ 64 - 1) div (2 ^ 32 - 1 :: nat) \<le> (2 ^ 64 - 1) div N"
    using N by (intro div_le_mono2) auto
  then have big: "2 ^ 32 < unat stride" using stride(2) by simp
  have lt: "D (?xs ! i) < D (?xs ! j)" if "i < j" "j < N" for i j
  proof -
    have Nle: "N \<le> 2 ^ 32" using N by simp
    have ui: "unat (D (?xs ! i)) = unat stride * i + unat (rnd i)"
      using that linear_no_wrap [OF N(1) Nle _ stride(2), of i "rnd i"]
      by (simp add: nonceLoop_start_def)
    have uj: "unat (D (?xs ! j)) = unat stride * j + unat (rnd j)"
      using that linear_no_wrap [OF N(1) Nle _ stride(2), of j "rnd j"]
      by (simp add: nonceLoop_start_def)
    have "unat stride * Suc i \<le> unat stride * j"
      using that by (intro mult_le_mono2) simp
    then have "unat stride * i + unat (rnd i) < unat stride * j + unat (rnd j)"
      using big unat_r32 [of "rnd i"] by simp
    then show ?thesis by (simp only: word_less_nat_alt ui uj)
  qed
  have "distinct ?xs"
    unfolding distinct_conv_nth
  proof (intro allI impI)
    fix i j assume "i < length ?xs" "j < length ?xs" "i \<noteq> j"
    then show "?xs ! i \<noteq> ?xs ! j"
      using lt [of i j] lt [of j i] by (cases "i < j") (auto simp del: nth_map)
  qed
  moreover have "\<forall>i<N. A (?xs ! i) = 0 \<and> B (?xs ! i) = 0 \<and> C (?xs ! i) = 0"
    by (simp add: nonceLoop_start_def)
  ultimately show ?thesis using stride(1) lt by (simp add: nonceLoop_starts_def del: nth_map)
qed


text \<open>
  C4, as stated, fails: for one worker the stride is the largest 64-bit value, which is not
  the largest 256-bit value, whether the limb \<open>D\<close> that receives it is read as the least or
  as the most significant limb.
\<close>

theorem nonceLoop_step_counterexample:
  "nonceLoop_step 1 = Some 18446744073709551615 \<and>
   unat (18446744073709551615 :: 64 word) \<noteq> (2 ^ 256 - 1) div 1 \<and>
   unat (18446744073709551615 :: 64 word) * 2 ^ 192 \<noteq> (2 ^ 256 - 1) div 1"
  by (simp add: nonceLoop_step_def MaxUint64_def)

text \<open>
  C4, amended: the stride is the largest 64-bit value divided by the worker count, and the
  start of worker \<open>i\<close> has the limbs \<open>A\<close>, \<open>B\<close>, \<open>C\<close> zero and the limb \<open>D\<close> equal to
  \<open>step * i\<close> plus the 32-bit random offset, computed on \<open>uint64\<close>; up to \<open>2 ^ 32\<close> workers
  that sum does not wrap.
\<close>

theorem nonceLoop_partition:
  assumes "1 \<le> N" and "N \<le> 2 ^ 32" and "i < N"
  shows "\<exists>stride. nonceLoop_step N = Some stride \<and> unat stride = (2 ^ 64 - 1) div N \<and>
           nonceLoop_start stride i r = \<lparr>A = 0, B = 0, C = 0, D = stride * of_nat i + ucast r\<rparr> \<and>
           unat (D (nonceLoop_start stride i r)) = unat stride * i + unat r \<and> unat r < 2 ^ 32"
proof -
  have "N < 2 ^ 64" using assms(2) by (simp add: le_less_trans [where y = "2 ^ 32"])
  with assms(1) obtain stride where stride: "nonceLoop_step N = Some stride" "unat stride = (2 ^ 64 - 1) div N"
    using nonceLoop_step_Some [of N] by blast
  have "unat (D (nonceLoop_start stride i r)) = unat stride * i + unat r"
    using linear_no_wrap [OF assms stride(2), of r] by (simp add: nonceLoop_start_def)
  with stride unat_r32 [of r] show ?thesis by (simp add: nonceLoop_start_def)
qed

theorem nonceLoop_partition_witness:
  "(1 :: nat) \<le> 4 \<and> (4 :: nat) \<le> 2 ^ 32 \<and> (3 :: nat) < 4 \<and>
   (\<exists>stride. nonceLoop_step 4 = Some stride \<and> unat stride = (2 ^ 64 - 1) div 4 \<and>
      nonceLoop_start stride 3 (jitter 3) = \<lparr>A = 0, B = 0, C = 0, D = stride * 3 + 3007\<rparr> \<and>
      unat (D (nonceLoop_start stride 3 (jitter 3))) = unat stride * 3 + 3007)"
proof -
  have h: "(1 :: nat) \<le> 4" "(4 :: nat) \<le> 2 ^ 32" "(3 :: nat) < 4" by simp_all
  show ?thesis using nonceLoop_partition [OF h, where r = "jitter 3"] by (simp add: jitter_def)
qed

text \<open>
  C5: with \<open>step = 256 / cpuCount\<close>, worker \<open>i\<close> is given the bit range that starts at bit
  \<open>i * step\<close>, all ranges inside the 256 bits; the limb of its start with the index
  \<open>i * step / 64\<close> is the single bit \<open>i * step mod 64\<close> plus the 32-bit random jitter,
  without wrap-around, and every other limb is zero.
\<close>

theorem nonceGen_partition:
  assumes "1 \<le> N" and "i < N"
  shows "\<exists>stride. nonceGen_step N = Some stride \<and> stride = 256 div N \<and> Suc i * stride \<le> 256 \<and>
           limb (i * stride div 64) (nonceGen_start stride i r) = push_bit (i * stride mod 64) 1 + ucast r \<and>
           unat (limb (i * stride div 64) (nonceGen_start stride i r)) = 2 ^ (i * stride mod 64) + unat r \<and>
           unat r < 2 ^ 32 \<and>
           (\<forall>p. p \<noteq> i * stride div 64 \<longrightarrow> limb p (nonceGen_start stride i r) = 0)"
proof -
  let ?stride = "256 div N"
  have b: "i * ?stride < 256" using assms(2) by (rule startBit_bound)
  have "?stride * Suc i \<le> ?stride * N" using assms(2) by (intro mult_le_mono2) simp
  also have "\<dots> \<le> 256" by (rule div_times_less_eq_dividend)
  finally have c: "Suc i * ?stride \<le> 256" by (simp add: mult.commute)
  have l: "limb (i * ?stride div 64) (nonceGen_start ?stride i r) = push_bit (i * ?stride mod 64) 1 + ucast r"
    using b by (rule nonceGen_start_limbs(1))
  have u: "unat (limb (i * ?stride div 64) (nonceGen_start ?stride i r)) = 2 ^ (i * ?stride mod 64) + unat r"
    by (simp only: l unat_bit_plus_jitter [OF mod_less_divisor [OF zero_less_numeral]])
  have z: "\<forall>p. p \<noteq> i * ?stride div 64 \<longrightarrow> limb p (nonceGen_start ?stride i r) = 0"
    using nonceGen_start_limbs(2) [OF b] by blast
  have "nonceGen_step N = Some ?stride" using assms(1) by (simp add: nonceGen_step_def)
  with c l u z unat_r32 [of r] show ?thesis by blast
qed

theorem nonceGen_partition_witness:
  "(1 :: nat) \<le> 8 \<and> (3 :: nat) < 8 \<and>
   (\<exists>stride. nonceGen_step 8 = Some stride \<and> stride = 32 \<and>
      limb 1 (nonceGen_start stride 3 (jitter 3)) = push_bit 32 1 + 3007 \<and>
      unat (limb 1 (nonceGen_start stride 3 (jitter 3))) = 2 ^ 32 + 3007 \<and>
      limb 0 (nonceGen_start stride 3 (jitter 3)) = 0)"
proof -
  have h: "(1 :: nat) \<le> 8" "(3 :: nat) < 8" by simp_all
  show ?thesis using nonceGen_partition [OF h, where r = "jitter 3"] by (simp add: jitter_def)
qed

text \<open>
  C6, as stated, fails. With 8 workers the bit ranges are 32 bits wide: worker 0 with the
  jitter \<open>2 ^ 32 - 1\<close> and worker 1 with the jitter 0 start at the same nonce. With
  \<open>2 ^ 32\<close> workers the linear stride is \<open>2 ^ 32 - 1\<close>, and the same two draws give
  workers 0 and 1 the same start.
\<close>

theorem partition_starts_counterexample:
  "nonceGen_step 8 = Some 32 \<and>
   nonceGen_start 32 0 4294967295 = nonceGen_start 32 1 0 \<and>
   nonceLoop_step 4294967296 = Some 4294967295 \<and>
   nonceLoop_start 4294967295 0 4294967295 = nonceLoop_start 4294967295 1 0"
  by (simp add: nonceGen_step_def nonceGen_start_def nonceLoop_step_def nonceLoop_start_def MaxUint64_def)

text \<open>
  C6, amended: for fewer than \<open>2 ^ 32\<close> workers the linear starts have the limbs \<open>A\<close>,
  \<open>B\<close>, \<open>C\<close> zero and a limb \<open>D\<close> that grows strictly with the worker index, so they are
  pairwise distinct; for at most 7 workers (bit ranges wider than 32 bits) the bit-sliced
  starts are pairwise distinct.
\<close>

theorem partition_starts_distinct:
  assumes "1 \<le> N"
  shows "(N < 2 ^ 32 \<longrightarrow>
            (\<exists>xs. nonceLoop_starts N rnd = Some xs \<and> length xs = N \<and>
               (\<forall>i<N. A (xs ! i) = 0 \<and> B (xs ! i) = 0 \<and> C (xs ! i) = 0) \<and>
               (\<forall>i j. i < j \<and> j < N \<longrightarrow> D (xs ! i) < D (xs ! j)) \<and> distinct xs)) \<and>
         (N \<le> 7 \<longrightarrow>
            (\<exists>ys. nonceGen_starts N rnd = Some ys \<and> length ys = N \<and> distinct ys))"
  using assms nonceLoop_starts_ordered [of N rnd] nonceGen_starts_distinct [of N rnd]
  by blast

theorem partition_starts_distinct_witness:
  "(1 :: nat) \<le> 3 \<and> (3 :: nat) < 2 ^ 32 \<and> (3 :: nat) \<le> 7 \<and>
   (\<exists>xs. nonceLoop_starts 3 jitter = Some xs \<and> length xs = 3 \<and>
      D (xs ! 0) < D (xs ! 1) \<and> D (xs ! 1) < D (xs ! 2) \<and> distinct xs) \<and>
   (\<exists>ys. nonceGen_starts 3 jitter = Some ys \<and> length ys = 3 \<and> distinct ys)"
proof -
  have h: "(1 :: nat) \<le> 3" by simp
  from partition_starts_distinct [OF h, of jitter]
  obtain xs ys where xs: "nonceLoop_starts 3 jitter = Some xs" "length xs = 3" "distinct xs"
    and lt: "\<forall>i j. i < j \<and> j < 3 \<longrightarrow> D (xs ! i) < D (xs ! j)"
    and ys: "nonceGen_starts 3 jitter = Some ys \<and> length ys = 3 \<and> distinct ys"
    by auto
  from lt have "D (xs ! 0) < D (xs ! 1)" "D (xs ! 1) < D (xs ! 2)"
    by simp_all
  with xs ys show ?thesis by simp
qed

section \<open>Invariants of the one-shot transition system\<close>

lemma list_all_update:
  "list_all P xs \<Longrightarrow> P x \<Longrightarrow> list_all P (xs[i := x])"
  by (induction xs arbitrary: i) (auto split: nat.splits)

lemma returned_count_update_returned:
  "i < length ws \<Longrightarrow> ws ! i \<noteq> WReturned \<Longrightarrow>
   returned_count (ws[i := WReturned]) = Suc (returned_count ws)"
  unfolding returned_count_def
  by (induction ws arbitrary: i) (auto split: nat.splits simp: nth_Cons)

lemma returned_count_update_other:
  "i < length ws \<Longrightarrow> ws ! i \<noteq> WReturned \<Longrightarrow> w \<noteq> WReturned \<Longrightarrow>
   returned_count (ws[i := w]) = returned_count ws"
  unfolding returned_count_def
  by (induction ws arbitrary: i) (auto split: nat.splits simp: nth_Cons)

lemma returned_count_less:
  "i < length ws \<Longrightarrow> ws ! i \<noteq> WReturned \<Longrightarrow> returned_count ws < length ws"
  unfolding returned_count_def
  by (rule length_filter_less [where x = "ws ! i"]) auto

lemma invariant_worker_step:
  assumes "invariant E s" "worker_step E i s = Some s'"
  shows "invariant E s'"
proof -
  from assms(2) have i: "i < length (workers s)"
    by (auto simp: worker_step_def split: if_splits)
  from assms(1) have ok: "worker_ok E (workers s ! i)"
    using i by (simp add: invariant_def list_all_length)
  show ?thesis
  proof (cases "workers s ! i")
    case (WPoll j)
    with assms i show ?thesis
      by (auto simp: worker_step_def invariant_def Let_def list_all_update
          returned_count_update_returned returned_count_update_other split: if_splits)
  next
    case (WSendProgress j h d)
    with assms i ok show ?thesis
      by (auto simp: worker_step_def invariant_def chan_send_def list_all_update
          returned_count_update_other split: if_splits)
  next
    case (WCompare j h d)
    with assms i ok show ?thesis
      by (auto simp: worker_step_def invariant_def list_all_update result_consistent_def
          returned_count_update_other split: if_splits)
  next
    case (WSendNonce n)
    with assms i ok show ?thesis
      by (auto simp: worker_step_def invariant_def chan_send_def list_all_update
          returned_count_update_returned split: if_splits)
  next
    case WReturned
    with assms i show ?thesis by (simp add: worker_step_def)
  qed
qed

lemma invariant_printer_step:
  assumes "invariant E s" "printer_step c s = Some s'"
  shows "invariant E s'"
  using assms
  by (auto simp: printer_step_def invariant_def split: printer.splits printer_case.splits if_splits list.splits)

lemma invariant_coordinator_step:
  assumes "invariant E s" "coordinator_step E s = Some s'"
  shows "invariant E s'"
  using assms
  by (auto simp: coordinator_step_def invariant_def nonceGen_report_def
      split: coordinator.splits if_splits list.splits prod.splits)

lemma invariant_step:
  "invariant E s \<Longrightarrow> step E a s = Some s' \<Longrightarrow> invariant E s'"
  by (cases a) (auto simp: step_def intro: invariant_worker_step invariant_printer_step invariant_coordinator_step)

lemma invariant_init:
  "nonceGen_init cpuCount rnd = Some s \<Longrightarrow> invariant E s"
  by (auto simp: nonceGen_init_def invariant_def list_all_iff split: option.splits)

lemma reachable_invariant:
  "reachable E cpuCount rnd s \<Longrightarrow> invariant E s"
  by (induction rule: reachable.induct) (auto intro: invariant_init invariant_step)


lemma step_length:
  "step E a s = Some s' \<Longrightarrow> length (workers s') = length (workers s)"
  by (cases a)
     (auto simp: step_def worker_step_def printer_step_def coordinator_step_def chan_send_def Let_def
        split: if_splits worker.splits printer.splits printer_case.splits coordinator.splits
          list.splits prod.splits option.splits)

lemma reachable_length:
  "reachable E cpuCount rnd s \<Longrightarrow> length (workers s) = cpuCount"
proof (induction rule: reachable.induct)
  case (reachable_init s)
  then show ?case
    by (auto simp: nonceGen_init_def nonceGen_starts_def split: option.splits)
next
  case (reachable_step s a s')
  then show ?case by (simp add: step_length)
qed

lemma run_reachable:
  "reachable E cpuCount rnd s \<Longrightarrow> run E sched s = Some s' \<Longrightarrow> reachable E cpuCount rnd s'"
proof (induction sched arbitrary: s)
  case Nil
  then show ?case by simp
next
  case (Cons a sched)
  then show ?case
    by (auto split: option.splits intro: reachable_step)
qed

lemma nonceGen_run_reachable:
  "nonceGen_run E cpuCount rnd sched = Some s \<Longrightarrow> reachable E cpuCount rnd s"
  by (auto simp: nonceGen_run_def Option.bind_eq_Some_conv intro: run_reachable reachable_init)

section \<open>The one-shot worker\<close>

lemma nonceCh_has_room:
  assumes "invariant E s" and "i < length (workers s)" and "workers s ! i = WSendNonce n"
  shows "length (nonceCh s) < length (workers s)"
proof -
  have "returned_count (workers s) < length (workers s)"
    using assms(2,3) by (intro returned_count_less [of i]) auto
  with assms(1) show ?thesis by (simp add: invariant_def)
qed

text \<open>
  The steps of a worker and the consistency of the results, in every state nonceGen can
  reach. Worker \<open>i\<close> at the head of its loop with nonce \<open>j\<close> and \<open>stopCh\<close> open computes
  the hash of the key bytes and \<open>j\<close> and its difficulty; at the comparison, the hash and the
  difficulty it holds are those of its current nonce, and when the difficulty meets the
  target it goes on to send the result made of that nonce, that difficulty and that hash;
  the send of the result always goes through, appends exactly that result to \<open>nonceCh\<close>,
  and the worker returns, after which it has no step. Every result in \<open>nonceCh\<close> or in
  the coordinator's hands is consistent: its hash is the hash of the key bytes and its
  nonce, its difficulty is the difficulty of its hash and meets the target. Between the
  hash and the comparison stands the send of the sample; what it can do to a worker is the
  matter of the next two sections.
\<close>

lemma worker_steps_and_result_consistency:
  assumes "reachable E cpuCount rnd s" and "i < cpuCount"
  shows
    "(workers s ! i = WPoll j \<and> \<not> stopClosed s \<longrightarrow>
        step E (Worker i) s =
          Some (s\<lparr>workers := (workers s)[i :=
            WSendProgress j (HashBlock E (Serialize E (publicKey E)) j)
              (Difficulty_of E (HashBlock E (Serialize E (publicKey E)) j))]\<rparr>)) \<and>
     (workers s ! i = WCompare j h d \<longrightarrow>
        h = HashBlock E (Serialize E (publicKey E)) j \<and> d = Difficulty_of E h) \<and>
     (workers s ! i = WCompare j h d \<and> difficulty E \<le> d \<longrightarrow>
        step E (Worker i) s =
          Some (s\<lparr>workers := (workers s)[i := WSendNonce \<lparr>Nonce = j, Difficulty = d, Hash = h\<rparr>]\<rparr>)) \<and>
     (workers s ! i = WSendNonce n \<longrightarrow>
        result_consistent E n \<and>
        step E (Worker i) s =
          Some (s\<lparr>nonceCh := nonceCh s @ [n], workers := (workers s)[i := WReturned]\<rparr>)) \<and>
     (workers s ! i = WReturned \<longrightarrow> step E (Worker i) s = None) \<and>
     (\<forall>r\<in>set (nonceCh s). result_consistent E r) \<and>
     (\<forall>r. coordinator s = CClose r \<or> coordinator s = CWait r \<longrightarrow> result_consistent E r) \<and>
     (\<forall>out r. coordinator s = CFinished out (Returned r) \<longrightarrow> result_consistent E r)"
proof -
  have inv: "invariant E s" using assms(1) by (rule reachable_invariant)
  have i: "i < length (workers s)" using assms by (simp add: reachable_length)
  have ok: "worker_ok E (workers s ! i)"
    using inv i by (simp add: invariant_def list_all_length)
  have poll: "workers s ! i = WPoll j \<and> \<not> stopClosed s \<longrightarrow>
        step E (Worker i) s =
          Some (s\<lparr>workers := (workers s)[i :=
            WSendProgress j (HashBlock E (Serialize E (publicKey E)) j)
              (Difficulty_of E (HashBlock E (Serialize E (publicKey E)) j))]\<rparr>)"
    using i by (simp add: step_def worker_step_def Let_def)
  have held: "workers s ! i = WCompare j h d \<longrightarrow>
        h = HashBlock E (Serialize E (publicKey E)) j \<and> d = Difficulty_of E h"
    using ok by auto
  have compare: "workers s ! i = WCompare j h d \<and> difficulty E \<le> d \<longrightarrow>
        step E (Worker i) s =
          Some (s\<lparr>workers := (workers s)[i := WSendNonce \<lparr>Nonce = j, Difficulty = d, Hash = h\<rparr>]\<rparr>)"
    using i by (simp add: step_def worker_step_def)
  have emit: "workers s ! i = WSendNonce n \<longrightarrow>
        result_consistent E n \<and>
        step E (Worker i) s =
          Some (s\<lparr>nonceCh := nonceCh s @ [n], workers := (workers s)[i := WReturned]\<rparr>)"
    using i ok nonceCh_has_room [OF inv i, of n]
    by (auto simp: step_def worker_step_def chan_send_def)
  have ret: "workers s ! i = WReturned \<longrightarrow> step E (Worker i) s = None"
    using i by (simp add: step_def worker_step_def)
  have chan: "\<forall>r\<in>set (nonceCh s). result_consistent E r"
    using inv by (simp add: invariant_def list_all_iff)
  have coord: "\<forall>r. coordinator s = CClose r \<or> coordinator s = CWait r \<longrightarrow> result_consistent E r"
    using inv by (auto simp: invariant_def)
  have fin: "\<forall>out r. coordinator s = CFinished out (Returned r) \<longrightarrow> result_consistent E r"
    using inv by (auto simp: invariant_def)
  from poll held compare emit ret chan coord fin show ?thesis by blast
qed

lemma one_worker_runs:
  "nonceGen_run (flat_deps 0) 1 jitter [] = Some (one_worker_state (WPoll \<lparr>A = 8, B = 0, C = 0, D = 0\<rparr>) [] [])"
  "nonceGen_run (flat_deps 0) 1 jitter [Worker 0] =
     Some (one_worker_state (WSendProgress \<lparr>A = 8, B = 0, C = 0, D = 0\<rparr> 0 0) [] [])"
  "nonceGen_run (flat_deps 0) 1 jitter [Worker 0, Worker 0] =
     Some (one_worker_state (WCompare \<lparr>A = 8, B = 0, C = 0, D = 0\<rparr> 0 0) [0] [])"
  "nonceGen_run (flat_deps 0) 1 jitter [Worker 0, Worker 0, Worker 0] =
     Some (one_worker_state (WSendNonce (result_of 8 0\<lparr>Hash := 0\<rparr>)) [0] [])"
  "nonceGen_run (flat_deps 0) 1 jitter [Worker 0, Worker 0, Worker 0, Worker 0] =
     Some (one_worker_state WReturned [0] [result_of 8 0\<lparr>Hash := 0\<rparr>])"
  by (simp_all add: nonceGen_run_def nonceGen_init_def nonceGen_starts_def nonceGen_step_def
      nonceGen_start_def jitter_def one_worker_state_def flat_deps_def step_def worker_step_def
      chan_send_def progressCap_def result_of_def)

lemma worker_steps_and_result_consistency_example:
  "reachable (flat_deps 0) 1 jitter (one_worker_state (WPoll \<lparr>A = 8, B = 0, C = 0, D = 0\<rparr>) [] []) \<and>
   (0 :: nat) < 1 \<and>
   step (flat_deps 0) (Worker 0) (one_worker_state (WPoll \<lparr>A = 8, B = 0, C = 0, D = 0\<rparr>) [] []) =
     Some (one_worker_state (WSendProgress \<lparr>A = 8, B = 0, C = 0, D = 0\<rparr> 0 0) [] []) \<and>
   reachable (flat_deps 0) 1 jitter (one_worker_state (WCompare \<lparr>A = 8, B = 0, C = 0, D = 0\<rparr> 0 0) [0] []) \<and>
   difficulty (flat_deps 0) \<le> 0 \<and>
   step (flat_deps 0) (Worker 0) (one_worker_state (WCompare \<lparr>A = 8, B = 0, C = 0, D = 0\<rparr> 0 0) [0] []) =
     Some (one_worker_state (WSendNonce \<lparr>Nonce = \<lparr>A = 8, B = 0, C = 0, D = 0\<rparr>, Difficulty = 0, Hash = 0\<rparr>) [0] []) \<and>
   step (flat_deps 0) (Worker 0)
       (one_worker_state (WSendNonce \<lparr>Nonce = \<lparr>A = 8, B = 0, C = 0, D = 0\<rparr>, Difficulty = 0, Hash = 0\<rparr>) [0] []) =
     Some (one_worker_state WReturned [0] [\<lparr>Nonce = \<lparr>A = 8, B = 0, C = 0, D = 0\<rparr>, Difficulty = 0, Hash = 0\<rparr>]) \<and>
   step (flat_deps 0) (Worker 0)
       (one_worker_state WReturned [0] [\<lparr>Nonce = \<lparr>A = 8, B = 0, C = 0, D = 0\<rparr>, Difficulty = 0, Hash = 0\<rparr>]) = None \<and>
   result_consistent (flat_deps 0) \<lparr>Nonce = \<lparr>A = 8, B = 0, C = 0, D = 0\<rparr>, Difficulty = 0, Hash = 0\<rparr>"
proof -
  let ?j = "\<lparr>A = 8, B = 0, C = 0, D = 0\<rparr>"
  let ?n = "\<lparr>Nonce = ?j, Difficulty = 0, Hash = 0 :: nat\<rparr>"
  have r0: "reachable (flat_deps 0) 1 jitter (one_worker_state (WPoll ?j) [] [])"
    by (rule nonceGen_run_reachable [OF one_worker_runs(1)])
  have r1: "reachable (flat_deps 0) 1 jitter (one_worker_state (WCompare ?j 0 0) [0] [])"
    by (rule nonceGen_run_reachable [OF one_worker_runs(3)])
  have r2: "reachable (flat_deps 0) 1 jitter (one_worker_state (WSendNonce ?n) [0] [])"
    using nonceGen_run_reachable [OF one_worker_runs(4)] by (simp add: result_of_def)
  have r3: "reachable (flat_deps 0) 1 jitter (one_worker_state WReturned [0] [?n])"
    using nonceGen_run_reachable [OF one_worker_runs(5)] by (simp add: result_of_def)
  have i: "(0 :: nat) < 1" by simp
  have d: "difficulty (flat_deps 0) \<le> 0" by (simp add: flat_deps_def)
  note t0 = worker_steps_and_result_consistency [OF r0 i, where j = ?j]
  note t1 = worker_steps_and_result_consistency [OF r1 i, where j = ?j and h = 0 and d = 0]
  note t2 = worker_steps_and_result_consistency [OF r2 i, where n = ?n]
  note t3 = worker_steps_and_result_consistency [OF r3 i]
  have s0: "step (flat_deps 0) (Worker 0) (one_worker_state (WPoll ?j) [] []) =
     Some (one_worker_state (WSendProgress ?j 0 0) [] [])"
    using t0 by (simp add: one_worker_state_def flat_deps_def)
  have s1: "step (flat_deps 0) (Worker 0) (one_worker_state (WCompare ?j 0 0) [0] []) =
     Some (one_worker_state (WSendNonce ?n) [0] [])"
    using t1 d by (simp add: one_worker_state_def)
  have s2: "step (flat_deps 0) (Worker 0) (one_worker_state (WSendNonce ?n) [0] []) =
     Some (one_worker_state WReturned [0] [?n])"
    and c: "result_consistent (flat_deps 0) ?n"
    using t2 by (simp_all add: one_worker_state_def)
  have s3: "step (flat_deps 0) (Worker 0) (one_worker_state WReturned [0] [?n]) = None"
    using t3 by (simp add: one_worker_state_def)
  from r0 i s0 r1 d s1 s2 c s3 show ?thesis by blast
qed

section \<open>The progress channel\<close>

lemma two_worker_run:
  "nonceGen_run split_deps 2 jitter two_worker_schedule = Some two_worker_deadlock"
  by code_simp

lemma stall_run:
  "nonceGen_run (flat_deps 24) 1 jitter (replicate 301 (Worker 0)) = Some stall_state"
  by code_simp

text \<open>
  C9, as stated, fails. With one worker and the target 24, when the worker has gone a
  hundred times round its loop before the printer has received a sample, the progress
  channel holds its 100 samples and the worker, at the send of its next sample, cannot
  complete it: the full channel stalls the worker although the printer is running, and no
  sample was dropped to make room.
\<close>

theorem progress_send_stalls_counterexample:
  "nonceGen_run (flat_deps 24) 1 jitter (replicate 301 (Worker 0)) = Some stall_state \<and>
   printer stall_state = PRunning 0 0 \<and>
   progressCh stall_state = replicate 100 0 \<and>
   stalled_on_progress (flat_deps 24) 0 stall_state"
proof -
  have "printer stall_state = PRunning 0 0" "progressCh stall_state = replicate 100 0"
    by (simp_all add: stall_state_def one_worker_state_def)
  moreover have "stalled_on_progress (flat_deps 24) 0 stall_state"
    by (simp add: stalled_on_progress_def stall_state_def one_worker_state_def step_def
        worker_step_def chan_send_def progressCap_def)
  ultimately show ?thesis using stall_run by simp
qed

text \<open>
  C9, amended: while the printer is running, the report is a send on a channel buffered to
  100 samples. The channel holds at most 100 samples; a worker at the send completes it at
  once while fewer than 100 samples are pending, and the sample is appended behind the
  pending ones; with 100 samples pending the worker cannot complete the send, the printer
  can receive the oldest sample, and then the send goes through. No sample is dropped.
\<close>

theorem progress_send_buffered_blocking:
  assumes "reachable E cpuCount rnd s" and "i < cpuCount" and "workers s ! i = WSendProgress j h d"
    and "printer s = PRunning count current"
  shows "progressCap = 100 \<and> length (progressCh s) \<le> progressCap \<and>
         (length (progressCh s) < progressCap \<longrightarrow>
            (\<exists>s'. step E (Worker i) s = Some s' \<and> progressCh s' = progressCh s @ [d])) \<and>
         (length (progressCh s) = progressCap \<longrightarrow>
            step E (Worker i) s = None \<and>
            (\<exists>s1 s2. step E (Printer OnProgress) s = Some s1 \<and> step E (Worker i) s1 = Some s2 \<and>
               progressCh s2 = tl (progressCh s) @ [d]))"
proof -
  have inv: "invariant E s" using assms(1) by (rule reachable_invariant)
  have i: "i < length (workers s)" using assms(1,2) by (simp add: reachable_length)
  have bound: "length (progressCh s) \<le> progressCap" using inv by (simp add: invariant_def)
  have room: "length (progressCh s) < progressCap \<longrightarrow>
      (\<exists>s'. step E (Worker i) s = Some s' \<and> progressCh s' = progressCh s @ [d])"
    using i assms(3) by (simp add: step_def worker_step_def chan_send_def)
  have full: "step E (Worker i) s = None" if "length (progressCh s) = progressCap"
    using that i assms(3) by (simp add: step_def worker_step_def chan_send_def)
  have drained: "\<exists>s1 s2. step E (Printer OnProgress) s = Some s1 \<and> step E (Worker i) s1 = Some s2 \<and>
                  progressCh s2 = tl (progressCh s) @ [d]"
    if len: "length (progressCh s) = progressCap"
  proof -
    from len obtain mined rest where p: "progressCh s = mined # rest"
      by (cases "progressCh s") (auto simp: progressCap_def)
    define s1 where "s1 = (if mined > current
        then s\<lparr>progressCh := rest, printer := PRunning count mined,
               statusLines := statusLines s @ [(count, mined)]\<rparr>
        else s\<lparr>progressCh := rest\<rparr>)"
    have a: "step E (Printer OnProgress) s = Some s1"
      using p assms(4) by (simp add: step_def printer_step_def s1_def)
    have w: "workers s1 = workers s" and r: "progressCh s1 = rest"
      by (simp_all add: s1_def)
    have "length rest < progressCap" using len p by simp
    then have "\<exists>s2. step E (Worker i) s1 = Some s2 \<and> progressCh s2 = rest @ [d]"
      using i assms(3) w r by (simp add: step_def worker_step_def chan_send_def)
    with a p show ?thesis by auto
  qed
  from bound room full drained show ?thesis by (simp add: progressCap_def)
qed

theorem progress_send_buffered_blocking_witness:
  "reachable (flat_deps 24) 1 jitter stall_state \<and> (0 :: nat) < 1 \<and>
   workers stall_state ! 0 = WSendProgress \<lparr>A = 8, B = 0, C = 0, D = 100\<rparr> 0 0 \<and>
   length (progressCh stall_state) = progressCap \<and>
   printer stall_state = PRunning 0 0 \<and>
   step (flat_deps 24) (Worker 0) stall_state = None \<and>
   (\<exists>s1 s2. step (flat_deps 24) (Printer OnProgress) stall_state = Some s1 \<and>
      step (flat_deps 24) (Worker 0) s1 = Some s2 \<and> progressCh s2 = replicate 100 0) \<and>
   reachable (flat_deps 0) 1 jitter (one_worker_state (WSendProgress \<lparr>A = 8, B = 0, C = 0, D = 0\<rparr> 0 0) [] []) \<and>
   printer (one_worker_state (WSendProgress \<lparr>A = 8, B = 0, C = 0, D = 0\<rparr> 0 0) [] []) = PRunning 0 0 \<and>
   (\<exists>s'. step (flat_deps 0) (Worker 0)
            (one_worker_state (WSendProgress \<lparr>A = 8, B = 0, C = 0, D = 0\<rparr> 0 0) [] []) = Some s' \<and>
         progressCh s' = [0])"
proof -
  let ?j = "\<lparr>A = 8, B = 0, C = 0, D = 100\<rparr>"
  let ?k = "\<lparr>A = 8, B = 0, C = 0, D = 0\<rparr>"
  have r: "reachable (flat_deps 24) 1 jitter stall_state"
    by (rule nonceGen_run_reachable [OF stall_run])
  have i: "(0 :: nat) < 1" by simp
  have w: "workers stall_state ! 0 = WSendProgress ?j 0 0"
    by (simp add: stall_state_def one_worker_state_def)
  have len: "length (progressCh stall_state) = progressCap"
    by (simp add: stall_state_def one_worker_state_def progressCap_def)
  have p: "printer stall_state = PRunning 0 0"
    by (simp add: stall_state_def one_worker_state_def)
  have tl: "tl (progressCh stall_state) @ [0] = replicate 100 0"
    by (simp add: stall_state_def one_worker_state_def numeral_eq_Suc replicate_append_same)
  have r0: "reachable (flat_deps 0) 1 jitter (one_worker_state (WSendProgress ?k 0 0) [] [])"
    by (rule nonceGen_run_reachable [OF one_worker_runs(2)])
  have w0: "workers (one_worker_state (WSendProgress ?k 0 0) [] []) ! 0 = WSendProgress ?k 0 0"
    by (simp add: one_worker_state_def)
  have l0: "length (progressCh (one_worker_state (WSendProgress ?k 0 0) [] [])) < progressCap"
    by (simp add: one_worker_state_def progressCap_def)
  have p0: "printer (one_worker_state (WSendProgress ?k 0 0) [] []) = PRunning 0 0"
    by (simp add: one_worker_state_def)
  note full = progress_send_buffered_blocking [OF r i w p]
  note room = progress_send_buffered_blocking [OF r0 i w0 p0]
  have a: "step (flat_deps 24) (Worker 0) stall_state = None"
    using full len by blast
  have b: "\<exists>s1 s2. step (flat_deps 24) (Printer OnProgress) stall_state = Some s1 \<and>
      step (flat_deps 24) (Worker 0) s1 = Some s2 \<and> progressCh s2 = replicate 100 0"
    using full len tl by metis
  have c: "\<exists>s'. step (flat_deps 0) (Worker 0) (one_worker_state (WSendProgress ?k 0 0) [] []) = Some s' \<and>
         progressCh s' = [0]"
    using room l0 by (simp add: one_worker_state_def)
  from r i w len p a b r0 p0 c show ?thesis by blast
qed

text \<open>
  Once the printer has returned, nothing receives from the progress channel any more. With
  two workers and the target 24 the schedule \<open>two_worker_schedule\<close> leads from the start
  of nonceGen to a state in which the channel holds 100 samples, the printer has returned
  on the closed \<open>stopCh\<close>, worker 0 is at the send of its next sample, and no goroutine
  has a step left while the coordinator is in \<open>wg.Wait()\<close>.
\<close>

lemma two_worker_deadlock_reached:
  "nonceGen_run split_deps 2 jitter two_worker_schedule = Some two_worker_deadlock \<and>
   length (progressCh two_worker_deadlock) = 100 \<and>
   stalled_on_progress split_deps 0 two_worker_deadlock \<and>
   deadlocked split_deps two_worker_deadlock"
proof -
  have "length (progressCh two_worker_deadlock) = 100"
    by (simp add: two_worker_deadlock_def)
  moreover have "stalled_on_progress split_deps 0 two_worker_deadlock"
    by code_simp
  moreover have "deadlocked split_deps two_worker_deadlock"
    by code_simp
  ultimately show ?thesis using two_worker_run by simp
qed

section \<open>Target difficulty 0\<close>

text \<open>
  With a target of 0 or less and a difficulty function that is never negative, a worker at
  the comparison always goes on to send the nonce it has just hashed as its result: it
  succeeds on the first nonce it tries.
\<close>

lemma zero_target_succeeds_on_first_nonce:
  assumes "difficulty E \<le> 0" and "\<And>x. 0 \<le> Difficulty_of E x"
    and "reachable E cpuCount rnd s" and "i < cpuCount"
    and "workers s ! i = WCompare j h d"
  shows "step E (Worker i) s =
           Some (s\<lparr>workers := (workers s)[i := WSendNonce \<lparr>Nonce = j, Difficulty = d, Hash = h\<rparr>]\<rparr>)"
proof -
  have inv: "invariant E s" using assms(3) by (rule reachable_invariant)
  have i: "i < length (workers s)" using assms(3,4) by (simp add: reachable_length)
  have "worker_ok E (workers s ! i)"
    using inv i by (simp add: invariant_def list_all_length)
  then have "d = Difficulty_of E h" using assms(5) by simp
  then have "difficulty E \<le> d" using assms(1) assms(2) [of h] by simp
  then show ?thesis
    using i assms(5) by (simp add: step_def worker_step_def)
qed

lemma run_append:
  "run E (xs @ ys) s = Option.bind (run E xs s) (run E ys)"
  by (induction xs arbitrary: s) (auto split: option.splits)

lemma map_upt_update:
  "k < n \<Longrightarrow> (map f [0..<n])[k := v] = map (f(k := v)) [0..<n]"
  by (auto intro!: nth_equalityI simp: nth_list_update)

lemma many_worker_poll:
  assumes "k < 101" and "W k = WPoll j"
  shows "step (flat_deps 0) (Worker k) (many_worker_state W p c False results samples) =
           Some (many_worker_state (W(k := WSendProgress j 0 0)) p c False results samples)"
  using assms
  by (simp add: step_def worker_step_def many_worker_state_def flat_deps_def map_upt_update)

lemma many_worker_sample:
  assumes "k < 101" and "W k = WSendProgress j 0 0" and "samples < 100"
  shows "step (flat_deps 0) (Worker k) (many_worker_state W p c stop results samples) =
           Some (many_worker_state (W(k := WCompare j 0 0)) p c stop results (Suc samples))"
  using assms
  by (simp add: step_def worker_step_def many_worker_state_def map_upt_update
      chan_send_def progressCap_def replicate_append_same)

lemma many_worker_compare:
  assumes "k < 101" and "W k = WCompare j 0 0"
  shows "step (flat_deps 0) (Worker k) (many_worker_state W p c stop results samples) =
           Some (many_worker_state (W(k := WSendNonce \<lparr>Nonce = j, Difficulty = 0, Hash = 0\<rparr>))
                   p c stop results samples)"
  using assms
  by (simp add: step_def worker_step_def many_worker_state_def flat_deps_def map_upt_update)

lemma many_worker_result:
  assumes "k < 101" and "W k = WSendNonce r" and "length results < 101"
  shows "step (flat_deps 0) (Worker k) (many_worker_state W p c stop results samples) =
           Some (many_worker_state (W(k := WReturned)) p c stop (results @ [r]) samples)"
  using assms
  by (simp add: step_def worker_step_def many_worker_state_def map_upt_update chan_send_def)

lemma many_worker_state_cong:
  "(\<And>i. i < 101 \<Longrightarrow> W i = W' i) \<Longrightarrow>
   many_worker_state W p c stop results samples = many_worker_state W' p c stop results samples"
  by (simp add: many_worker_state_def)

lemma many_worker_init:
  "nonceGen_init 101 jitter =
     Some (many_worker_state (\<lambda>i. WPoll (first_nonce i)) (PRunning 0 0) CReceive False [] 0)"
  by (simp add: nonceGen_init_def nonceGen_starts_def nonceGen_step_def many_worker_state_def
      first_nonce_def comp_def)

text \<open>
  Workers 0 to \<open>k - 1\<close> have hashed their first nonce, sent their sample and compared.
\<close>

lemma many_worker_samples:
  assumes "k \<le> 100"
  shows "run (flat_deps 0) (concat (map (\<lambda>i. [Worker i, Worker i, Worker i]) [0..<k]))
           (many_worker_state (\<lambda>i. WPoll (first_nonce i)) (PRunning 0 0) CReceive False [] 0) =
         Some (many_worker_state (\<lambda>i. if i < k then WSendNonce (first_result i) else WPoll (first_nonce i))
                 (PRunning 0 0) CReceive False [] k)"
  using assms
proof (induction k)
  case 0
  then show ?case by simp
next
  case (Suc k)
  let ?W = "\<lambda>i. if i < k then WSendNonce (first_result i) else WPoll (first_nonce i)"
  have k: "k < 101" "k < 100" using Suc.prems by simp_all
  have a: "step (flat_deps 0) (Worker k) (many_worker_state ?W (PRunning 0 0) CReceive False [] k) =
      Some (many_worker_state (?W(k := WSendProgress (first_nonce k) 0 0)) (PRunning 0 0) CReceive False [] k)"
    using k(1) by (intro many_worker_poll) simp_all
  have b: "step (flat_deps 0) (Worker k)
        (many_worker_state (?W(k := WSendProgress (first_nonce k) 0 0)) (PRunning 0 0) CReceive False [] k) =
      Some (many_worker_state ((?W(k := WSendProgress (first_nonce k) 0 0))(k := WCompare (first_nonce k) 0 0))
              (PRunning 0 0) CReceive False [] (Suc k))"
    using k by (intro many_worker_sample) simp_all
  have b': "step (flat_deps 0) (Worker k)
        (many_worker_state (?W(k := WCompare (first_nonce k) 0 0)) (PRunning 0 0) CReceive False [] (Suc k)) =
      Some (many_worker_state ((?W(k := WCompare (first_nonce k) 0 0))(k := WSendNonce (first_result k)))
              (PRunning 0 0) CReceive False [] (Suc k))"
    unfolding first_result_def using k by (intro many_worker_compare) simp_all
  have c: "?W(k := WSendNonce (first_result k)) =
      (\<lambda>i. if i < Suc k then WSendNonce (first_result i) else WPoll (first_nonce i))"
    by (auto simp: fun_eq_iff less_Suc_eq)
  have "run (flat_deps 0) [Worker k, Worker k, Worker k] (many_worker_state ?W (PRunning 0 0) CReceive False [] k) =
      Some (many_worker_state (\<lambda>i. if i < Suc k then WSendNonce (first_result i) else WPoll (first_nonce i))
              (PRunning 0 0) CReceive False [] (Suc k))"
    using b b' by (simp add: a c)
  with Suc show ?case by (simp add: run_append)
qed

text \<open>Workers 1 to \<open>k - 1\<close> have sent their results after the coordinator took the first.\<close>

lemma many_worker_results:
  assumes "Suc 0 \<le> k" and "k \<le> 100"
  shows "run (flat_deps 0) (map Worker [Suc 0..<k])
           (many_worker_state
              (\<lambda>i. if i < Suc 0 then WReturned else if i < 100 then WSendNonce (first_result i)
                    else WSendProgress (first_nonce i) 0 0)
              PReturned (CWait (first_result 0)) True [] 100) =
         Some (many_worker_state
              (\<lambda>i. if i < k then WReturned else if i < 100 then WSendNonce (first_result i)
                    else WSendProgress (first_nonce i) 0 0)
              PReturned (CWait (first_result 0)) True (map first_result [Suc 0..<k]) 100)"
  using assms
proof (induction k)
  case 0
  then show ?case by simp
next
  case (Suc k)
  show ?case
  proof (cases "k = 0")
    case True
    then show ?thesis by simp
  next
    case False
    let ?s0 = "many_worker_state
              (\<lambda>i. if i < Suc 0 then WReturned else if i < 100 then WSendNonce (first_result i)
                    else WSendProgress (first_nonce i) 0 0)
              PReturned (CWait (first_result 0)) True [] 100"
    let ?W = "\<lambda>i. if i < k then WReturned else if i < 100 then WSendNonce (first_result i)
                    else WSendProgress (first_nonce i) 0 0"
    have k: "Suc 0 \<le> k" "k < 100" "k < 101" "k \<le> 100" using False Suc.prems by simp_all
    have ih: "run (flat_deps 0) (map Worker [Suc 0..<k]) ?s0 =
        Some (many_worker_state ?W PReturned (CWait (first_result 0)) True (map first_result [Suc 0..<k]) 100)"
      using Suc.IH [OF k(1) k(4)] .
    have a: "step (flat_deps 0) (Worker k)
          (many_worker_state ?W PReturned (CWait (first_result 0)) True (map first_result [Suc 0..<k]) 100) =
        Some (many_worker_state (?W(k := WReturned)) PReturned (CWait (first_result 0)) True
                (map first_result [Suc 0..<k] @ [first_result k]) 100)"
      using k by (intro many_worker_result) simp_all
    have c: "?W(k := WReturned) =
        (\<lambda>i. if i < Suc k then WReturned else if i < 100 then WSendNonce (first_result i)
              else WSendProgress (first_nonce i) 0 0)"
      by (auto simp: fun_eq_iff less_Suc_eq)
    have d: "map first_result [Suc 0..<k] @ [first_result k] = map first_result [Suc 0..<Suc k]"
      using k(1) by simp
    have e: "map Worker [Suc 0..<Suc k] = map Worker [Suc 0..<k] @ [Worker k]"
      using k(1) by simp
    have "run (flat_deps 0) (map Worker [Suc 0..<k] @ [Worker k]) ?s0 =
        Option.bind (run (flat_deps 0) (map Worker [Suc 0..<k]) ?s0) (run (flat_deps 0) [Worker k])"
      by (rule run_append)
    also have "\<dots> = run (flat_deps 0) [Worker k]
        (many_worker_state ?W PReturned (CWait (first_result 0)) True (map first_result [Suc 0..<k]) 100)"
      by (simp only: ih Option.bind.simps)
    also have "\<dots> = Some (many_worker_state (?W(k := WReturned)) PReturned (CWait (first_result 0)) True
                (map first_result [Suc 0..<k] @ [first_result k]) 100)"
      by (simp only: run.simps a option.case)
    finally show ?thesis by (simp only: e c d)
  qed
qed

lemma deadlock_schedule_run:
  "nonceGen_run (flat_deps 0) 101 jitter deadlock_schedule = Some deadlock_state"
proof -
  let ?E = "flat_deps 0"
  let ?A = "\<lambda>i. if i < 100 then WSendNonce (first_result i) else WPoll (first_nonce i)"
  let ?B = "\<lambda>i. if i < 100 then WSendNonce (first_result i) else WSendProgress (first_nonce i) 0 0"
  let ?C = "\<lambda>i. if i < Suc 0 then WReturned else if i < 100 then WSendNonce (first_result i)
                    else WSendProgress (first_nonce i) 0 0"
  have p1: "run ?E full_buffer_schedule
      (many_worker_state (\<lambda>i. WPoll (first_nonce i)) (PRunning 0 0) CReceive False [] 0) =
      Some (many_worker_state ?B (PRunning 0 0) CReceive False [] 100)"
  proof -
    have "step ?E (Worker 100) (many_worker_state ?A (PRunning 0 0) CReceive False [] 100) =
        Some (many_worker_state (?A(100 := WSendProgress (first_nonce 100) 0 0)) (PRunning 0 0) CReceive False [] 100)"
      by (intro many_worker_poll) simp_all
    moreover have "many_worker_state (?A(100 := WSendProgress (first_nonce 100) 0 0)) (PRunning 0 0) CReceive False [] 100 =
        many_worker_state ?B (PRunning 0 0) CReceive False [] 100"
    proof (rule many_worker_state_cong)
      fix i :: nat
      assume "i < 101"
      then have "i < 100 \<or> i = 100" by arith
      then show "(?A(100 := WSendProgress (first_nonce 100) 0 0)) i = ?B i" by auto
    qed
    ultimately show ?thesis
      using many_worker_samples [of 100] by (simp add: full_buffer_schedule_def run_append)
  qed
  have p2: "run ?E [Worker 0, Coordinator, Coordinator, Printer OnStop]
      (many_worker_state ?B (PRunning 0 0) CReceive False [] 100) =
      Some (many_worker_state ?C PReturned (CWait (first_result 0)) True [] 100)"
  proof -
    have "step ?E (Worker 0) (many_worker_state ?B (PRunning 0 0) CReceive False [] 100) =
        Some (many_worker_state (?B(0 := WReturned)) (PRunning 0 0) CReceive False ([] @ [first_result 0]) 100)"
      by (intro many_worker_result) simp_all
    moreover have "many_worker_state (?B(0 := WReturned)) (PRunning 0 0) CReceive False [first_result 0] 100 =
        many_worker_state ?C (PRunning 0 0) CReceive False [first_result 0] 100"
      by (rule many_worker_state_cong) simp
    ultimately have "step ?E (Worker 0) (many_worker_state ?B (PRunning 0 0) CReceive False [] 100) =
        Some (many_worker_state ?C (PRunning 0 0) CReceive False [first_result 0] 100)"
      by simp
    then show ?thesis
      by (simp add: step_def coordinator_step_def printer_step_def many_worker_state_def)
  qed
  have p3: "run ?E (map Worker [Suc 0..<100]) (many_worker_state ?C PReturned (CWait (first_result 0)) True [] 100) =
      Some deadlock_state"
  proof -
    have "many_worker_state
        (\<lambda>i. if i < 100 then WReturned else if i < 100 then WSendNonce (first_result i)
              else WSendProgress (first_nonce i) 0 0)
        PReturned (CWait (first_result 0)) True (map first_result [Suc 0..<100]) 100 = deadlock_state"
      unfolding deadlock_state_def One_nat_def by (rule many_worker_state_cong) simp
    then show ?thesis using many_worker_results [of 100] by simp
  qed
  have sched: "deadlock_schedule =
      full_buffer_schedule @ ([Worker 0, Coordinator, Coordinator, Printer OnStop] @ map Worker [Suc 0..<100])"
    by (simp add: deadlock_schedule_def)
  have "nonceGen_run ?E 101 jitter deadlock_schedule =
      run ?E deadlock_schedule (many_worker_state (\<lambda>i. WPoll (first_nonce i)) (PRunning 0 0) CReceive False [] 0)"
    by (simp add: nonceGen_run_def many_worker_init)
  also have "\<dots> = Some deadlock_state"
    unfolding sched by (simp only: run_append p1 p2 p3 Option.bind.simps)
  finally show ?thesis .
qed

lemma deadlock_state_deadlocked:
  "deadlocked (flat_deps 0) deadlock_state"
proof -
  let ?W = "\<lambda>i. if i < 100 then WReturned else WSendProgress (first_nonce i) 0 0"
  have w: "workers deadlock_state = map ?W [0..<101]"
    by (simp add: deadlock_state_def many_worker_state_def)
  have worker: "step (flat_deps 0) (Worker i) deadlock_state = None" for i
  proof (cases "i < 100")
    case True
    then show ?thesis by (simp add: step_def worker_step_def w)
  next
    case False
    then show ?thesis
      by (simp add: step_def worker_step_def w chan_send_def progressCap_def)
         (simp add: deadlock_state_def many_worker_state_def)
  qed
  have printer: "step (flat_deps 0) (Printer c) deadlock_state = None" for c
    by (simp add: step_def printer_step_def deadlock_state_def many_worker_state_def)
  have "\<not> list_all (\<lambda>w. w = WReturned) (workers deadlock_state)"
    unfolding w list_all_length by (auto intro!: exI [of _ 100])
  then have coord: "step (flat_deps 0) Coordinator deadlock_state = None"
    by (simp add: step_def coordinator_step_def) (simp add: deadlock_state_def many_worker_state_def)
  have "coordinator deadlock_state = CWait (first_result 0)"
    by (simp add: deadlock_state_def many_worker_state_def)
  then show ?thesis
    by (simp add: deadlocked_def all_actors_def list_all_iff worker printer coord)
qed

text \<open>
  C8: with the target 0 and 101 workers nonceGen can fail to return. Under
  \<open>deadlock_schedule\<close> every worker hashes its first nonce, which meets the target; the
  samples of workers 0 to 99 fill the progress channel; the coordinator receives the result
  of worker 0 and closes \<open>stopCh\<close>; the printer returns on the closed \<open>stopCh\<close> without
  receiving a sample; workers 1 to 99 send their results and return; worker 100 stays at the
  send of its sample and the coordinator in \<open>wg.Wait()\<close>. No goroutine has a step left,
  and nonceGen has not returned.
\<close>

theorem nonceGen_zero_target_deadlock:
  "difficulty (flat_deps 0) = 0 \<and>
   nonceGen_run (flat_deps 0) 101 jitter deadlock_schedule = Some deadlock_state \<and>
   deadlocked (flat_deps 0) deadlock_state"
  using deadlock_schedule_run deadlock_state_deadlocked by (simp add: flat_deps_def)

text \<open>
  C1: a worker whose current digest meets the target does not always emit a result. In
  \<open>deadlock_state\<close>, reached under \<open>deadlock_schedule\<close> with 101 workers and the target 0,
  worker 100 holds the hash of its current nonce, whose difficulty 0 meets the target, and
  is at the send of its sample: it cannot complete the send, no goroutine has a step left,
  \<open>nonceCh\<close> holds the results of workers 1 to 99 only and the coordinator that of
  worker 0. Worker 100 neither emits its result nor returns.
\<close>

theorem nonceGen_qualifying_digest_not_emitted:
  "nonceGen_run (flat_deps 0) 101 jitter deadlock_schedule = Some deadlock_state \<and>
   workers deadlock_state ! 100 =
     WSendProgress (first_nonce 100)
       (HashBlock (flat_deps 0) (Serialize (flat_deps 0) (publicKey (flat_deps 0))) (first_nonce 100))
       (Difficulty_of (flat_deps 0)
         (HashBlock (flat_deps 0) (Serialize (flat_deps 0) (publicKey (flat_deps 0))) (first_nonce 100))) \<and>
   difficulty (flat_deps 0) \<le>
     Difficulty_of (flat_deps 0)
       (HashBlock (flat_deps 0) (Serialize (flat_deps 0) (publicKey (flat_deps 0))) (first_nonce 100)) \<and>
   stalled_on_progress (flat_deps 0) 100 deadlock_state \<and>
   deadlocked (flat_deps 0) deadlock_state \<and>
   nonceCh deadlock_state = map first_result [1..<100] \<and>
   coordinator deadlock_state = CWait (first_result 0)"
proof -
  have w: "workers deadlock_state ! 100 = WSendProgress (first_nonce 100) 0 0"
    by (simp add: deadlock_state_def many_worker_state_def)
  have len: "length (workers deadlock_state) = 101" "progressCh deadlock_state = replicate 100 0"
    by (simp_all add: deadlock_state_def many_worker_state_def)
  have st: "stalled_on_progress (flat_deps 0) 100 deadlock_state"
    by (simp add: stalled_on_progress_def w len step_def worker_step_def chan_send_def progressCap_def)
  have rest: "nonceCh deadlock_state = map first_result [1..<100]"
    "coordinator deadlock_state = CWait (first_result 0)"
    by (simp_all add: deadlock_state_def many_worker_state_def)
  from w st rest deadlock_schedule_run deadlock_state_deadlocked show ?thesis
    by (simp add: flat_deps_def)
qed

section \<open>Cancellation and collection in continuous mode\<close>

lemma list_all_take_iff:
  "k \<le> length xs \<Longrightarrow> list_all P (take k xs) \<longleftrightarrow> (\<forall>n<k. P (xs ! n))"
  by (simp add: list_all_length)

lemma list_all_drop_iff:
  "list_all P (drop k xs) \<longleftrightarrow> (\<forall>n. k \<le> n \<and> n < length xs \<longrightarrow> P (xs ! n))"
proof
  assume a: "list_all P (drop k xs)"
  show "\<forall>n. k \<le> n \<and> n < length xs \<longrightarrow> P (xs ! n)"
  proof (intro allI impI)
    fix n assume n: "k \<le> n \<and> n < length xs"
    then have "n - k < length xs - k" by arith
    then have "n - k < length (drop k xs)" by simp
    with a have "P (drop k xs ! (n - k))" by (simp add: list_all_length)
    with n show "P (xs ! n)" by simp
  qed
next
  assume "\<forall>n. k \<le> n \<and> n < length xs \<longrightarrow> P (xs ! n)"
  then show "list_all P (drop k xs)" by (simp add: list_all_length)
qed

lemma loop_invariant_collect:
  assumes "loop_coordinator s = LCollect rs"
  shows "loop_invariant cpuCount s \<longleftrightarrow>
     length (loop_workers s) = cpuCount \<and> length (stopChs s) = cpuCount \<and>
     length rs \<le> cpuCount \<and> list_all (\<lambda>b. b) (stopChs s) \<and>
     (\<forall>n<length rs. loop_workers s ! n = LReturned) \<and>
     (\<forall>n. length rs \<le> n \<and> n < cpuCount \<longrightarrow> loop_workers s ! n \<noteq> LReturned)"
proof (cases "length (loop_workers s) = cpuCount \<and> length rs \<le> cpuCount")
  case True
  then have "length rs \<le> length (loop_workers s)" by simp
  then have "list_all (\<lambda>w. w = LReturned) (take (length rs) (loop_workers s)) \<longleftrightarrow>
      (\<forall>n<length rs. loop_workers s ! n = LReturned)"
    by (rule list_all_take_iff)
  with True assms show ?thesis
    by (simp add: loop_invariant_def list_all_drop_iff)
next
  case False
  with assms show ?thesis by (auto simp: loop_invariant_def)
qed

lemma ComputeBlockNonce_step_cases:
  assumes "ComputeBlockNonce_step E (Some placeholder) stopped w = Some w'"
  shows "(\<exists>j. w = LPoll j) \<and> w' \<noteq> LReturned \<and> (stopped \<longrightarrow> w' = LSend placeholder)"
  using assms
  by (auto simp: ComputeBlockNonce_step_def Let_def split: loop_worker.splits if_splits)

lemma loop_invariant_init:
  "nonceLoop_init cpuCount rnd = Some s \<Longrightarrow> loop_invariant cpuCount s"
  by (auto simp: nonceLoop_init_def nonceLoop_starts_def loop_invariant_def list_all_iff
      split: option.splits)

lemma loop_invariant_worker:
  assumes inv: "loop_invariant cpuCount s"
    and st: "loop_step E (Some placeholder) (LWorker i) s = Some s'"
  shows "loop_invariant cpuCount s'"
proof -
  from st obtain w where i: "i < length (loop_workers s)"
    and w: "ComputeBlockNonce_step E (Some placeholder) (stopChs s ! i) (loop_workers s ! i) = Some w"
    and s': "s' = s\<lparr>loop_workers := (loop_workers s)[i := w]\<rparr>"
    by (auto simp: loop_step_def split: if_splits option.splits)
  from ComputeBlockNonce_step_cases [OF w] obtain j where old: "loop_workers s ! i = LPoll j"
    and new: "w \<noteq> LReturned" by blast
  have len: "length (loop_workers s) = cpuCount" using inv by (simp add: loop_invariant_def)
  show ?thesis
  proof (cases "loop_coordinator s")
    case LWaitSignal
    with inv new i show ?thesis
      by (auto simp: s' loop_invariant_def list_all_length nth_list_update)
  next
    case (LClose k)
    with inv new i show ?thesis
      by (auto simp: s' loop_invariant_def list_all_length nth_list_update)
  next
    case (LCollect rs)
    then have c': "loop_coordinator s' = LCollect rs" by (simp add: s')
    from inv have ret: "\<forall>n<length rs. loop_workers s ! n = LReturned"
      by (simp add: loop_invariant_collect [OF LCollect])
    from ret old have "\<not> i < length rs" by auto
    with inv new i show ?thesis
      unfolding loop_invariant_collect [OF LCollect] loop_invariant_collect [OF c']
      by (auto simp: s' nth_list_update)
  next
    case (LFinished out res)
    with inv i old show ?thesis
      by (auto simp: loop_invariant_def list_all_length)
  qed
qed

lemma loop_invariant_coordinator:
  assumes inv: "loop_invariant cpuCount s"
    and st: "loop_step E (Some placeholder) LCoordinator s = Some s'"
  shows "loop_invariant cpuCount s'"
proof (cases "loop_coordinator s")
  case LWaitSignal
  with st show ?thesis by (simp add: loop_step_def loop_coordinator_step_def)
next
  case (LClose k)
  show ?thesis
  proof (cases "k < length (loop_workers s)")
    case True
    with st LClose have s': "s' = s\<lparr>stopChs := (stopChs s)[k := True], loop_coordinator := LClose (k + 1)\<rparr>"
      by (simp add: loop_step_def loop_coordinator_step_def)
    from inv LClose True show ?thesis
      by (auto simp: s' loop_invariant_def list_all_take_iff nth_list_update less_Suc_eq)
  next
    case False
    with st LClose have s': "s' = s\<lparr>loop_coordinator := LCollect []\<rparr>"
      by (simp add: loop_step_def loop_coordinator_step_def)
    from inv LClose False show ?thesis
      by (auto simp: s' loop_invariant_def)
  qed
next
  case (LCollect rs)
  from inv have len: "length (loop_workers s) = cpuCount" and rs: "length rs \<le> cpuCount"
    and ret: "\<forall>n<length rs. loop_workers s ! n = LReturned"
    by (simp_all add: loop_invariant_collect [OF LCollect])
  show ?thesis
  proof (cases "length rs < length (loop_workers s)")
    case True
    with st LCollect obtain r where "loop_workers s ! length rs = LSend r"
      and s': "s' = s\<lparr>loop_workers := (loop_workers s)[length rs := LReturned],
                      loop_coordinator := LCollect (rs @ [r])\<rparr>"
      by (auto simp: loop_step_def loop_coordinator_step_def split: loop_worker.splits)
    have c': "loop_coordinator s' = LCollect (rs @ [r])" by (simp add: s')
    from inv True len show ?thesis
      unfolding loop_invariant_collect [OF LCollect] loop_invariant_collect [OF c']
      by (auto simp: s' nth_list_update less_Suc_eq)
  next
    case False
    with st LCollect obtain out res where s': "s' = s\<lparr>loop_coordinator := LFinished out res\<rparr>"
      by (auto simp: loop_step_def loop_coordinator_step_def split: prod.splits)
    from False len rs have "length rs = length (loop_workers s)" by simp
    with ret show ?thesis using inv by (auto simp: s' loop_invariant_def list_all_length)
  qed
next
  case (LFinished out res)
  with st show ?thesis by (simp add: loop_step_def loop_coordinator_step_def)
qed

lemma loop_invariant_step:
  assumes "loop_invariant cpuCount s" and "loop_step E (Some placeholder) a s = Some s'"
  shows "loop_invariant cpuCount s'"
proof (cases a)
  case (LWorker i)
  with assms show ?thesis by (auto intro: loop_invariant_worker)
next
  case LSignal
  with assms show ?thesis
    by (auto simp: loop_step_def loop_invariant_def split: loop_coordinator.splits)
next
  case LCoordinator
  with assms show ?thesis by (auto intro: loop_invariant_coordinator)
qed

lemma loop_reachable_invariant:
  "loop_reachable E (Some placeholder) cpuCount rnd s \<Longrightarrow> loop_invariant cpuCount s"
  by (induction rule: loop_reachable.induct) (auto intro: loop_invariant_init loop_invariant_step)

lemma polls_update_leave:
  "i < length ws \<Longrightarrow> ws ! i = LPoll j \<Longrightarrow> \<not> at_poll w \<Longrightarrow>
   Suc (length (filter at_poll (ws[i := w]))) = length (filter at_poll ws)"
  by (induction ws arbitrary: i) (auto split: nat.splits simp: nth_Cons)

lemma polls_update_same:
  "i < length ws \<Longrightarrow> ws ! i = LSend r \<Longrightarrow>
   length (filter at_poll (ws[i := LReturned])) = length (filter at_poll ws)"
  by (induction ws arbitrary: i) (auto split: nat.splits simp: nth_Cons)

lemma collect_step:
  assumes inv: "loop_invariant cpuCount s" and c: "loop_coordinator s = LCollect rs"
    and st: "loop_step E (Some placeholder) a s = Some s'"
  shows "collect_measure s' + 1 = collect_measure s \<and>
         ((\<exists>rs'. loop_coordinator s' = LCollect rs') \<or> (\<exists>out. loop_coordinator s' = LFinished out ExitNormally))"
proof (cases a)
  case (LWorker i)
  with st obtain w where i: "i < length (loop_workers s)" "i < length (stopChs s)"
    and w: "ComputeBlockNonce_step E (Some placeholder) (stopChs s ! i) (loop_workers s ! i) = Some w"
    and s': "s' = s\<lparr>loop_workers := (loop_workers s)[i := w]\<rparr>"
    by (auto simp: loop_step_def split: if_splits option.splits)
  from inv i(2) have "stopChs s ! i"
    by (simp add: loop_invariant_collect [OF c] list_all_length)
  with ComputeBlockNonce_step_cases [OF w] obtain j where "loop_workers s ! i = LPoll j" "w = LSend placeholder"
    by blast
  with i(1) have "Suc (length (filter at_poll ((loop_workers s)[i := w]))) =
      length (filter at_poll (loop_workers s))"
    by (intro polls_update_leave) simp_all
  with c show ?thesis by (simp add: collect_measure_def s')
next
  case LSignal
  with st c show ?thesis by (simp add: loop_step_def)
next
  case LCoordinator
  from inv have len: "length (loop_workers s) = cpuCount" and rs: "length rs \<le> cpuCount"
    by (simp_all add: loop_invariant_collect [OF c])
  show ?thesis
  proof (cases "length rs < length (loop_workers s)")
    case True
    with st c LCoordinator obtain r where r: "loop_workers s ! length rs = LSend r"
      and s': "s' = s\<lparr>loop_workers := (loop_workers s)[length rs := LReturned],
                      loop_coordinator := LCollect (rs @ [r])\<rparr>"
      by (auto simp: loop_step_def loop_coordinator_step_def split: loop_worker.splits)
    from True r have "length (filter at_poll
          ((loop_workers s)[length rs := LReturned])) =
        length (filter at_poll (loop_workers s))"
      by (rule polls_update_same)
    with True c show ?thesis by (simp add: collect_measure_def s' Suc_diff_Suc)
  next
    case False
    with st c LCoordinator obtain out where s': "s' = s\<lparr>loop_coordinator := LFinished out ExitNormally\<rparr>"
      by (auto simp: loop_step_def loop_coordinator_step_def nonceLoop_report_def Let_def)
    from False len rs c show ?thesis by (simp add: collect_measure_def s')
  qed
qed

lemma finished_no_step:
  assumes inv: "loop_invariant cpuCount s" and c: "loop_coordinator s = LFinished out res"
  shows "loop_step E cancelResult a s = None"
proof (cases a)
  case (LWorker i)
  from inv c have "\<forall>n<length (loop_workers s). loop_workers s ! n = LReturned"
    by (simp add: loop_invariant_def list_all_length)
  with LWorker show ?thesis
    by (auto simp: loop_step_def ComputeBlockNonce_step_def)
next
  case LSignal
  with c show ?thesis by (simp add: loop_step_def)
next
  case LCoordinator
  with c show ?thesis by (simp add: loop_step_def loop_coordinator_step_def)
qed

lemma collect_run:
  assumes "loop_invariant cpuCount s"
    and "(\<exists>rs. loop_coordinator s = LCollect rs) \<or> (\<exists>out. loop_coordinator s = LFinished out ExitNormally)"
    and "loop_run E (Some placeholder) sched s = Some s'"
  shows "collect_measure s' + length sched = collect_measure s \<and>
         ((\<exists>rs'. loop_coordinator s' = LCollect rs') \<or> (\<exists>out. loop_coordinator s' = LFinished out ExitNormally))"
  using assms
proof (induction sched arbitrary: s)
  case Nil
  then show ?case by simp
next
  case (Cons a sched)
  from Cons.prems(3) obtain s1 where a: "loop_step E (Some placeholder) a s = Some s1"
    and rest: "loop_run E (Some placeholder) sched s1 = Some s'"
    by (auto split: option.splits)
  from Cons.prems(2) finished_no_step [OF Cons.prems(1), of _ _ E "Some placeholder" a] a
  obtain rs where c: "loop_coordinator s = LCollect rs" by auto
  note one = collect_step [OF Cons.prems(1) c a]
  have inv1: "loop_invariant cpuCount s1"
    using Cons.prems(1) a by (rule loop_invariant_step)
  from Cons.IH [OF inv1 _ rest] one show ?case by auto
qed

lemma collect_not_stuck:
  assumes inv: "loop_invariant cpuCount s" and c: "loop_coordinator s = LCollect rs"
  shows "\<exists>a s'. loop_step E (Some placeholder) a s = Some s'"
proof (cases "length rs < cpuCount")
  case True
  from inv have len: "length (loop_workers s) = cpuCount" "length (stopChs s) = cpuCount"
    and live: "loop_workers s ! length rs \<noteq> LReturned"
    using True by (simp_all add: loop_invariant_collect [OF c])
  show ?thesis
  proof (cases "loop_workers s ! length rs")
    case (LPoll j)
    with True len have "\<exists>s'. loop_step E (Some placeholder) (LWorker (length rs)) s = Some s'"
      by (simp add: loop_step_def ComputeBlockNonce_step_def Let_def)
    then show ?thesis by blast
  next
    case (LSend r)
    with True len c have "\<exists>s'. loop_step E (Some placeholder) LCoordinator s = Some s'"
      by (simp add: loop_step_def loop_coordinator_step_def)
    then show ?thesis by blast
  next
    case LReturned
    with live show ?thesis by simp
  qed
next
  case False
  from inv have "length (loop_workers s) = cpuCount"
    by (simp add: loop_invariant_collect [OF c])
  with False c have "\<exists>s'. loop_step E (Some placeholder) LCoordinator s = Some s'"
    by (simp add: loop_step_def loop_coordinator_step_def split: prod.splits)
  then show ?thesis by blast
qed

lemma loop_run_reachable:
  "loop_reachable E cancelResult cpuCount rnd s \<Longrightarrow> loop_run E cancelResult sched s = Some s' \<Longrightarrow>
   loop_reachable E cancelResult cpuCount rnd s'"
proof (induction sched arbitrary: s)
  case Nil
  then show ?case by simp
next
  case (Cons a sched)
  then show ?case by (auto split: option.splits intro: loop_reachable_step)
qed

text \<open>
  C3: in every state nonceLoop reaches, with workers that send a placeholder when
  cancelled: closing the stop channels goes on without waiting, in index order; the
  collection starts only when every stop channel is closed; during it exactly the workers
  whose result was read have returned, a worker at the head of its loop goes to the send of
  the placeholder, the read of \<open>nonceChs[i]\<close> takes the result of worker \<open>i\<close> as soon as
  it is at its send, and after \<open>cpuCount\<close> reads the coordinator reports and ends
  normally; some goroutine always has a step, every run from there has at most
  \<open>collect_measure\<close> steps, and a run of that many steps ends with the report: the
  collection completes.
\<close>

theorem nonceLoop_collection_completes:
  assumes "loop_reachable E (Some placeholder) cpuCount rnd s"
  shows
    "(loop_coordinator s = LClose i \<and> i < cpuCount \<longrightarrow>
        loop_step E (Some placeholder) LCoordinator s =
          Some (s\<lparr>stopChs := (stopChs s)[i := True], loop_coordinator := LClose (i + 1)\<rparr>)) \<and>
     (loop_coordinator s = LCollect rs \<longrightarrow>
        length rs \<le> cpuCount \<and> list_all (\<lambda>b. b) (stopChs s) \<and>
        (\<forall>k<cpuCount. (loop_workers s ! k = LReturned) = (k < length rs)) \<and>
        (\<forall>k j. k < cpuCount \<and> loop_workers s ! k = LPoll j \<longrightarrow>
           loop_step E (Some placeholder) (LWorker k) s =
             Some (s\<lparr>loop_workers := (loop_workers s)[k := LSend placeholder]\<rparr>)) \<and>
        (\<forall>r. length rs < cpuCount \<and> loop_workers s ! length rs = LSend r \<longrightarrow>
           loop_step E (Some placeholder) LCoordinator s =
             Some (s\<lparr>loop_workers := (loop_workers s)[length rs := LReturned],
                     loop_coordinator := LCollect (rs @ [r])\<rparr>)) \<and>
        (length rs = cpuCount \<longrightarrow>
           loop_step E (Some placeholder) LCoordinator s =
             Some (s\<lparr>loop_coordinator :=
                LFinished (fst (nonceLoop_report (IsIDPubNonceValid E) (publicKey E) rs)) ExitNormally\<rparr>)) \<and>
        (\<exists>a s'. loop_step E (Some placeholder) a s = Some s') \<and>
        (\<forall>sched s'. loop_run E (Some placeholder) sched s = Some s' \<longrightarrow>
           length sched \<le> collect_measure s \<and>
           (length sched = collect_measure s \<longrightarrow>
              (\<exists>out. loop_coordinator s' = LFinished out ExitNormally))))"
proof -
  have inv: "loop_invariant cpuCount s" using assms by (rule loop_reachable_invariant)
  have len: "length (loop_workers s) = cpuCount" "length (stopChs s) = cpuCount"
    using inv by (simp_all add: loop_invariant_def)
  have close: "loop_coordinator s = LClose i \<and> i < cpuCount \<longrightarrow>
        loop_step E (Some placeholder) LCoordinator s =
          Some (s\<lparr>stopChs := (stopChs s)[i := True], loop_coordinator := LClose (i + 1)\<rparr>)"
    using len by (simp add: loop_step_def loop_coordinator_step_def)
  have collect: ?thesis if c: "loop_coordinator s = LCollect rs"
  proof -
    note facts = inv [unfolded loop_invariant_collect [OF c]]
    have a: "length rs \<le> cpuCount" "list_all (\<lambda>b. b) (stopChs s)"
      using facts by simp_all
    have b: "\<forall>k<cpuCount. (loop_workers s ! k = LReturned) = (k < length rs)"
      using facts by (metis not_le)
    have stop: "stopChs s ! k" if "k < cpuCount" for k
      using a(2) len(2) that by (simp add: list_all_length)
    have w: "\<forall>k j. k < cpuCount \<and> loop_workers s ! k = LPoll j \<longrightarrow>
           loop_step E (Some placeholder) (LWorker k) s =
             Some (s\<lparr>loop_workers := (loop_workers s)[k := LSend placeholder]\<rparr>)"
      using len stop by (simp add: loop_step_def ComputeBlockNonce_step_def)
    have r: "\<forall>r. length rs < cpuCount \<and> loop_workers s ! length rs = LSend r \<longrightarrow>
           loop_step E (Some placeholder) LCoordinator s =
             Some (s\<lparr>loop_workers := (loop_workers s)[length rs := LReturned],
                     loop_coordinator := LCollect (rs @ [r])\<rparr>)"
      using len c by (simp add: loop_step_def loop_coordinator_step_def)
    have f: "length rs = cpuCount \<longrightarrow>
           loop_step E (Some placeholder) LCoordinator s =
             Some (s\<lparr>loop_coordinator :=
                LFinished (fst (nonceLoop_report (IsIDPubNonceValid E) (publicKey E) rs)) ExitNormally\<rparr>)"
      using len c by (simp add: loop_step_def loop_coordinator_step_def nonceLoop_report_def Let_def)
    have live: "\<exists>a s'. loop_step E (Some placeholder) a s = Some s'"
      using inv c by (rule collect_not_stuck)
    have bound: "length sched \<le> collect_measure s \<and>
           (length sched = collect_measure s \<longrightarrow> (\<exists>out. loop_coordinator s' = LFinished out ExitNormally))"
      if run: "loop_run E (Some placeholder) sched s = Some s'" for sched s'
    proof -
      from c have "(\<exists>rs. loop_coordinator s = LCollect rs) \<or>
          (\<exists>out. loop_coordinator s = LFinished out ExitNormally)" by blast
      from collect_run [OF inv this run]
      have m: "collect_measure s' + length sched = collect_measure s"
        and p: "(\<exists>rs'. loop_coordinator s' = LCollect rs') \<or>
          (\<exists>out. loop_coordinator s' = LFinished out ExitNormally)" by blast+
      have "\<exists>out. loop_coordinator s' = LFinished out ExitNormally"
        if "length sched = collect_measure s"
      proof -
        from m that have "collect_measure s' = 0" by simp
        then have "\<not> (\<exists>rs'. loop_coordinator s' = LCollect rs')"
          by (auto simp: collect_measure_def)
        with p show ?thesis by blast
      qed
      with m show ?thesis by auto
    qed
    from close a b w r f live bound show ?thesis by blast
  qed
  show ?thesis
  proof (cases "\<exists>rs. loop_coordinator s = LCollect rs")
    case True
    then obtain rs' where c': "loop_coordinator s = LCollect rs'" by blast
    show ?thesis
    proof (cases "rs' = rs")
      case True
      with c' collect show ?thesis by blast
    next
      case False
      with c' close show ?thesis by simp
    qed
  next
    case False
    with close show ?thesis by simp
  qed
qed

lemma nonceLoop_run_reachable:
  "nonceLoop_run E cancelResult cpuCount rnd sched = Some s \<Longrightarrow> loop_reachable E cancelResult cpuCount rnd s"
  by (auto simp: nonceLoop_run_def Option.bind_eq_Some_conv intro: loop_run_reachable loop_reachable_init)

lemma collecting_state_run:
  "nonceLoop_run (flat_deps 24) (Some NonceInfo_zero) 2 jitter [LSignal, LCoordinator, LCoordinator, LCoordinator] =
   Some collecting_state"
  "loop_run (flat_deps 24) (Some NonceInfo_zero)
     [LWorker 0, LWorker 1, LCoordinator, LCoordinator, LCoordinator] collecting_state =
   Some collected_state"
  "collect_measure collecting_state = 5"
  by code_simp+

lemma collecting_state_reachable:
  "loop_reachable (flat_deps 24) (Some NonceInfo_zero) 2 jitter collecting_state"
  using collecting_state_run(1) by (rule nonceLoop_run_reachable)

theorem nonceLoop_collection_completes_witness:
  "loop_reachable (flat_deps 24) (Some NonceInfo_zero) 2 jitter collecting_state \<and>
   loop_coordinator collecting_state = LCollect [] \<and>
   list_all (\<lambda>b. b) (stopChs collecting_state) \<and>
   (\<exists>a s'. loop_step (flat_deps 24) (Some NonceInfo_zero) a collecting_state = Some s') \<and>
   loop_run (flat_deps 24) (Some NonceInfo_zero)
     [LWorker 0, LWorker 1, LCoordinator, LCoordinator, LCoordinator] collecting_state = Some collected_state \<and>
   length [LWorker 0, LWorker 1, LCoordinator, LCoordinator, LCoordinator] = collect_measure collecting_state \<and>
   (\<exists>out. loop_coordinator collected_state = LFinished out ExitNormally)"
proof -
  have c: "loop_coordinator collecting_state = LCollect []"
    by (simp add: collecting_state_def)
  note t = nonceLoop_collection_completes [OF collecting_state_reachable, where rs = "[]"]
  from t c have a: "list_all (\<lambda>b. b) (stopChs collecting_state)"
    and b: "\<exists>a s'. loop_step (flat_deps 24) (Some NonceInfo_zero) a collecting_state = Some s'"
    and d: "\<forall>sched s'. loop_run (flat_deps 24) (Some NonceInfo_zero) sched collecting_state = Some s' \<longrightarrow>
           length sched \<le> collect_measure collecting_state \<and>
           (length sched = collect_measure collecting_state \<longrightarrow>
              (\<exists>out. loop_coordinator s' = LFinished out ExitNormally))"
    by blast+
  have l: "length [LWorker 0, LWorker 1, LCoordinator, LCoordinator, LCoordinator] = collect_measure collecting_state"
    by (simp add: collecting_state_run(3))
  from d collecting_state_run(2) l have "\<exists>out. loop_coordinator collected_state = LFinished out ExitNormally"
    by blast
  with collecting_state_reachable c a b collecting_state_run(2) l show ?thesis by blast
qed

text \<open>
  Under the other reading of the spec, a cancelled worker that returns without a result,
  the same coordinator stays in its first read: one worker, the signal, the close, the
  worker's poll.
\<close>

lemma cancelled_without_result_blocks:
  "nonceLoop_run (flat_deps 24) None 1 jitter [LSignal, LCoordinator, LCoordinator, LWorker 0] =
     Some unanswered_state"
  "loop_step (flat_deps 24) None (LWorker i) unanswered_state = None"
  "loop_step (flat_deps 24) None LSignal unanswered_state = None"
  "loop_step (flat_deps 24) None LCoordinator unanswered_state = None"
proof -
  show "nonceLoop_run (flat_deps 24) None 1 jitter [LSignal, LCoordinator, LCoordinator, LWorker 0] =
     Some unanswered_state"
    by code_simp
  show "loop_step (flat_deps 24) None (LWorker i) unanswered_state = None"
    by (cases i) (simp_all add: loop_step_def unanswered_state_def ComputeBlockNonce_step_def)
  show "loop_step (flat_deps 24) None LSignal unanswered_state = None"
    by (simp add: loop_step_def unanswered_state_def)
  show "loop_step (flat_deps 24) None LCoordinator unanswered_state = None"
    by (simp add: loop_step_def loop_coordinator_step_def unanswered_state_def)
qed

end
